theory Spec2Isabelle
  imports Complex_Main "HOL-Library.Word"
begin

section \<open>Python values shared by the modules\<close>

text \<open>
  Exceptions of the Python run time that the modelled functions can raise.  A function that
  can raise returns \<open>py_error + 'a\<close>, with \<open>Inl\<close> for the exception.
\<close>

datatype py_error = IndexError | ValueError | AttributeError | FileNotFoundError | QueueEmpty
  | OtherError

text \<open>\<^verbatim>\<open>str.split(sep)\<close> for a separator of one character: the result is never empty.\<close>

fun split_on :: "char \<Rightarrow> string \<Rightarrow> string list" where
  "split_on c [] = [[]]"
| "split_on c (x # xs) =
     (if x = c then [] # split_on c xs
      else (case split_on c xs of [] \<Rightarrow> [[x]] | w # ws \<Rightarrow> (x # w) # ws))"

text \<open>
  \<^verbatim>\<open>xs[i]\<close>: an index from 0 up counts from the front, a negative one from the back, and
  an index outside the list raises IndexError.
\<close>

definition py_index :: "'a list \<Rightarrow> int \<Rightarrow> py_error + 'a" where
  "py_index xs i =
     (if 0 \<le> i \<and> i < int (length xs) then Inr (xs ! nat i)
      else if i < 0 \<and> - i \<le> int (length xs) then Inr (xs ! nat (int (length xs) + i))
      else Inl IndexError)"

section \<open>legacy/dedup.py: ImageDeduplicator\<close>

subsection \<open>hamming_distance\<close>

text \<open>
  \<^verbatim>\<open>return sum(c1 != c2 for c1, c2 in zip(hash1, hash2))\<close>:
  \<open>zip\<close> stops at the end of the shorter string.
\<close>

definition hamming_distance :: "string \<Rightarrow> string \<Rightarrow> nat" where
  "hamming_distance hash1 hash2 =
     sum_list (map (\<lambda>(c1, c2). if c1 \<noteq> c2 then 1 else 0) (zip hash1 hash2))"

subsection \<open>The imaging library\<close>

text \<open>
  The functions of the imaging library (PIL, numpy) that the deduplicator calls are parameters
  of the model.  \<open>image_open path\<close> is \<^verbatim>\<open>Image.open(path)\<close>, \<open>None\<close> when it raises
  (missing, unreadable or corrupt file).  \<open>convert_L_resize img w h\<close> is the array
  \<^verbatim>\<open>np.array(img.convert('L').resize((w, h)))\<close>, a list of rows of 8-bit intensities,
  \<open>None\<close> when the call raises.  \<open>image_size img\<close> is \<^verbatim>\<open>img.size\<close>, the pair
  (width, height).
\<close>

type_synonym uint8 = "8 word"

record 'img imaging =
  image_open :: "string \<Rightarrow> 'img option"
  convert_L_resize :: "'img \<Rightarrow> nat \<Rightarrow> nat \<Rightarrow> uint8 list list option"
  image_size :: "'img \<Rightarrow> nat \<times> nat"

subsection \<open>calculate_dhash\<close>

text \<open>
  \<^verbatim>\<open>diff = pixels[:, 1:] > pixels[:, :-1]\<close> compares, in every row, the row without its
  first column with the row without its last column, element by element;
  \<^verbatim>\<open>''.join(str(int(d)) for d in diff.flatten())\<close> writes the comparisons row by row.
  Any exception gives \<open>None\<close>.
\<close>

definition diff_row :: "uint8 list \<Rightarrow> bool list" where
  "diff_row row = map (\<lambda>(a, b). a > b) (zip (tl row) (butlast row))"

definition bit_char :: "bool \<Rightarrow> char" where
  "bit_char d = (if d then CHR ''1'' else CHR ''0'')"

definition calculate_dhash :: "'img imaging \<Rightarrow> string \<Rightarrow> nat \<Rightarrow> string option" where
  "calculate_dhash env image_path hash_size =
     (case image_open env image_path of
        None \<Rightarrow> None
      | Some img \<Rightarrow>
          (case convert_L_resize env img (hash_size + 1) hash_size of
             None \<Rightarrow> None
           | Some pixels \<Rightarrow> Some (map bit_char (concat (map diff_row pixels)))))"

text \<open>
  The hash as the specification words it: in every row each pixel is compared with its right
  neighbour, and the bit is 1 when the pixel is strictly greater than that neighbour.
\<close>

definition spec_row_bits :: "uint8 list \<Rightarrow> bool list" where
  "spec_row_bits row = map (\<lambda>c. row ! c > row ! (c + 1)) [0 ..< length row - 1]"

definition spec_dhash :: "uint8 list list \<Rightarrow> string" where
  "spec_dhash pixels = map bit_char (concat (map spec_row_bits pixels))"

subsection \<open>get_image_resolution\<close>

definition get_image_resolution :: "'img imaging \<Rightarrow> string \<Rightarrow> nat" where
  "get_image_resolution env image_path =
     (case image_open env image_path of
        None \<Rightarrow> 0
      | Some img \<Rightarrow> (case image_size env img of (width, height) \<Rightarrow> width * height))"

subsection \<open>The deduplicator's state\<close>

text \<open>
  \<open>image_hashes\<close> is a dictionary, kept as an association list in insertion order, which is
  the order Python iterates it in.  \<open>groups\<close> is a dictionary whose keys are
  \<open>0, 1, 2, \<dots>\<close> in insertion order (\<^verbatim>\<open>group_id = len(self.groups)\<close>), kept as the list of
  its values.  \<open>threshold\<close> is a Python \<open>int\<close>.
\<close>

record deduplicator =
  threshold :: int
  image_hashes :: "(string \<times> string) list"
  groups :: "string list list"
  representatives :: "string set"

definition init_deduplicator :: "int \<Rightarrow> deduplicator" where
  "init_deduplicator t =
     \<lparr>threshold = t, image_hashes = [], groups = [], representatives = {}\<rparr>"

fun dict_set :: "'k \<Rightarrow> 'v \<Rightarrow> ('k \<times> 'v) list \<Rightarrow> ('k \<times> 'v) list" where
  "dict_set k v [] = [(k, v)]"
| "dict_set k v ((k', v') # kvs) =
     (if k = k' then (k, v) # kvs else (k', v') # dict_set k v kvs)"

subsection \<open>process_directory\<close>

text \<open>
  \<^verbatim>\<open>Path.suffix\<close>: the part of the final path component from its last dot on, empty when
  there is no dot, when the dot is the component's first character or its last.
  \<^verbatim>\<open>str.lower\<close> is modelled on ASCII letters.
\<close>

definition path_name :: "string \<Rightarrow> string" where
  "path_name path = last (split_on CHR ''/'' path)"

definition path_suffix :: "string \<Rightarrow> string" where
  "path_suffix path =
     (let name = path_name path; ext = last (split_on CHR ''.'' name)
      in if length ext < length name \<and> 0 < length name - length ext - 1 \<and> ext \<noteq> []
         then CHR ''.'' # ext else [])"

definition lower_char :: "char \<Rightarrow> char" where
  "lower_char c =
     (case map_of (zip ''ABCDEFGHIJKLMNOPQRSTUVWXYZ'' ''abcdefghijklmnopqrstuvwxyz'') c of
        None \<Rightarrow> c
      | Some l \<Rightarrow> l)"

definition py_lower :: "string \<Rightarrow> string" where
  "py_lower s = map lower_char s"

definition valid_extensions :: "string set" where
  "valid_extensions = {''.jpg'', ''.jpeg'', ''.png'', ''.bmp'', ''.gif''}"

text \<open>
  \<open>paths\<close> is what \<^verbatim>\<open>Path(directory_path).rglob('*')\<close> yields, as strings, in its order.
  The hash is stored when it is truthy: neither \<open>None\<close> nor the empty string.
\<close>

definition hash_one :: "'img imaging \<Rightarrow> (string \<times> string) list \<Rightarrow> string \<Rightarrow> (string \<times> string) list"
  where
  "hash_one env hashes path =
     (if py_lower (path_suffix path) \<in> valid_extensions then
        (case calculate_dhash env path 8 of
           None \<Rightarrow> hashes
         | Some hash_value \<Rightarrow> if hash_value \<noteq> [] then dict_set path hash_value hashes else hashes)
      else hashes)"

definition process_directory :: "'img imaging \<Rightarrow> string list \<Rightarrow> deduplicator \<Rightarrow> deduplicator"
  where
  "process_directory env paths self = self\<lparr>image_hashes := foldl (hash_one env) [] paths\<rparr>"

subsection \<open>group_similar_images\<close>

text \<open>
  The inner loop over all of \<open>image_hashes\<close> admits every unprocessed image within the
  threshold of the seed \<open>hash1\<close>; the outer loop opens a group at every image that is
  still unprocessed when its turn comes, and stores the group when it is not empty.
\<close>

definition admit :: "int \<Rightarrow> string \<Rightarrow> string list \<times> string set \<Rightarrow> string \<times> string
    \<Rightarrow> string list \<times> string set" where
  "admit t hash1 acc item =
     (case acc of (current_group, processed) \<Rightarrow>
      case item of (path2, hash2) \<Rightarrow>
        if path2 \<notin> processed \<and> int (hamming_distance hash1 hash2) \<le> t
        then (current_group @ [path2], insert path2 processed)
        else (current_group, processed))"

definition open_group :: "(string \<times> string) list \<Rightarrow> int \<Rightarrow> string list list \<times> string set
    \<Rightarrow> string \<times> string \<Rightarrow> string list list \<times> string set" where
  "open_group items t acc item =
     (case acc of (gs, processed) \<Rightarrow>
      case item of (path1, hash1) \<Rightarrow>
        if path1 \<in> processed then (gs, processed)
        else (case foldl (admit t hash1) ([], processed) items of
                (current_group, processed') \<Rightarrow>
                  (if current_group \<noteq> [] then gs @ [current_group] else gs, processed')))"

definition group_similar_images :: "deduplicator \<Rightarrow> deduplicator" where
  "group_similar_images self =
     self\<lparr>groups :=
       fst (foldl (open_group (image_hashes self) (threshold self)) ([], {}) (image_hashes self))\<rparr>"

subsection \<open>select_representatives\<close>

text \<open>
  \<^verbatim>\<open>max(group, key=f)\<close> keeps the first item whose key is greatest: the running maximum is
  replaced only by an item with a strictly greater key.  On an empty list \<open>max\<close> raises
  ValueError, \<^verbatim>\<open>group[0]\<close> and \<^verbatim>\<open>random.choice(group)\<close> raise IndexError.
  \<open>choice\<close> stands for \<^verbatim>\<open>random.choice\<close> on a non-empty list.
\<close>

fun max_from :: "('a \<Rightarrow> nat) \<Rightarrow> 'a \<Rightarrow> 'a list \<Rightarrow> 'a" where
  "max_from key best [] = best"
| "max_from key best (x # xs) = max_from key (if key x > key best then x else best) xs"

definition py_max :: "('a \<Rightarrow> nat) \<Rightarrow> 'a list \<Rightarrow> py_error + 'a" where
  "py_max key xs = (case xs of [] \<Rightarrow> Inl ValueError | x # rest \<Rightarrow> Inr (max_from key x rest))"

definition select_one :: "'img imaging \<Rightarrow> (string list \<Rightarrow> string) \<Rightarrow> string \<Rightarrow> string list
    \<Rightarrow> py_error + string" where
  "select_one env choice method grp =
     (if method = ''random'' then (if grp = [] then Inl IndexError else Inr (choice grp))
      else if method = ''highest_res'' then py_max (get_image_resolution env) grp
      else py_index grp 0)"

fun select_loop :: "'img imaging \<Rightarrow> (string list \<Rightarrow> string) \<Rightarrow> string \<Rightarrow> string list list
    \<Rightarrow> string set \<Rightarrow> py_error + string set" where
  "select_loop env choice method [] reps = Inr reps"
| "select_loop env choice method (grp # rest) reps =
     (case select_one env choice method grp of
        Inl e \<Rightarrow> Inl e
      | Inr representative \<Rightarrow> select_loop env choice method rest (insert representative reps))"

definition select_representatives :: "'img imaging \<Rightarrow> (string list \<Rightarrow> string) \<Rightarrow> string
    \<Rightarrow> deduplicator \<Rightarrow> py_error + deduplicator" where
  "select_representatives env choice method self =
     (case select_loop env choice method (groups self) {} of
        Inl e \<Rightarrow> Inl e
      | Inr reps \<Rightarrow> Inr (self\<lparr>representatives := reps\<rparr>))"

subsection \<open>get_group_statistics\<close>

record statistics =
  total_images :: nat
  unique_groups :: nat
  total_duplicates :: int
  group_sizes :: "nat list"
  largest_group_size :: nat
  average_group_size :: rat
  size_distribution :: "(nat \<times> nat) list"

fun dict_incr :: "'k \<Rightarrow> ('k \<times> nat) list \<Rightarrow> ('k \<times> nat) list" where
  "dict_incr k [] = [(k, 1)]"
| "dict_incr k ((k', n) # kvs) = (if k = k' then (k, n + 1) # kvs else (k', n) # dict_incr k kvs)"

definition get_group_statistics :: "deduplicator \<Rightarrow> statistics" where
  "get_group_statistics self =
     \<lparr>total_images = length (image_hashes self),
      unique_groups = length (groups self),
      total_duplicates = int (length (image_hashes self)) - int (card (representatives self)),
      group_sizes = map length (groups self),
      largest_group_size = (if groups self \<noteq> [] then foldl max 0 (map length (groups self)) else 0),
      average_group_size =
        (if groups self \<noteq> []
         then of_nat (sum_list (map length (groups self))) / of_nat (length (groups self)) else 0),
      size_distribution = foldl (\<lambda>d grp. dict_incr (length grp) d) [] (groups self)\<rparr>"

subsection \<open>deduplicate\<close>

definition deduplicate :: "'img imaging \<Rightarrow> (string list \<Rightarrow> string) \<Rightarrow> string list \<Rightarrow> string
    \<Rightarrow> deduplicator \<Rightarrow> py_error + (string set \<times> statistics \<times> deduplicator)" where
  "deduplicate env choice paths method self =
     (case select_representatives env choice method
             (group_similar_images (process_directory env paths self)) of
        Inl e \<Rightarrow> Inl e
      | Inr self' \<Rightarrow> Inr (representatives self', get_group_statistics self', self'))"

subsection \<open>A recursive description of the grouping\<close>

text \<open>
  Used in the proofs only.  \<open>near t hash1 item\<close> is the admission test of the inner loop.
  \<open>seed_groups\<close> builds the groups by recursion on the list of images: the first image
  seeds a group that takes every later image near it, and the images that are not near it
  are grouped in the same way.  \<open>seeds\<close> lists the seeds.  The loops of
  \<open>group_similar_images\<close> are proved to compute \<open>seed_groups\<close> when the threshold is
  not negative.
\<close>

definition near :: "int \<Rightarrow> string \<Rightarrow> string \<times> string \<Rightarrow> bool" where
  "near t hash1 item = (int (hamming_distance hash1 (snd item)) \<le> t)"

fun seed_groups :: "int \<Rightarrow> (string \<times> string) list \<Rightarrow> string list list" where
  "seed_groups t [] = []"
| "seed_groups t (x # rest) =
     (fst x # map fst (filter (near t (snd x)) rest))
       # seed_groups t (filter (\<lambda>y. \<not> near t (snd x) y) rest)"

fun seeds :: "int \<Rightarrow> (string \<times> string) list \<Rightarrow> (string \<times> string) list" where
  "seeds t [] = []"
| "seeds t (x # rest) = x # seeds t (filter (\<lambda>y. \<not> near t (snd x) y) rest)"

subsection \<open>A directory of five frames\<close>

text \<open>
  A concrete imaging library for the examples: five frame files, two of them with the same
  pixels.  The grid of a frame has one row that depends on the frame and zeros below it.
\<close>

abbreviation frame_a :: string where "frame_a \<equiv> ''temp_photo/frame_0.050.jpg''"
abbreviation frame_a2 :: string where "frame_a2 \<equiv> ''temp_photo/frame_0.075.jpg''"
abbreviation frame_b :: string where "frame_b \<equiv> ''temp_photo/frame_0.100.jpg''"
abbreviation frame_c :: string where "frame_c \<equiv> ''temp_photo/frame_0.150.jpg''"
abbreviation frame_d :: string where "frame_d \<equiv> ''temp_photo/frame_0.200.jpg''"

definition example_row :: "nat \<Rightarrow> uint8 list" where
  "example_row img =
     (if img = 0 then [0, 0, 0, 0, 0, 0, 0, 0, 0]
      else if img = 1 then [0, 1, 0, 0, 0, 0, 0, 0, 0]
      else if img = 2 then [0, 1, 2, 0, 0, 0, 0, 0, 0]
      else [0, 1, 2, 3, 4, 5, 6, 7, 8])"

definition example_imaging :: "nat imaging" where
  "example_imaging =
     \<lparr>image_open = map_of [(frame_a, 0), (frame_a2, 0), (frame_b, 1), (frame_c, 2), (frame_d, 3)],
      convert_L_resize = (\<lambda>img w h. if w = 0 \<or> h = 0 then None
         else Some (map (\<lambda>r. if r = 0 then take w (example_row img @ replicate w 0)
                                 else replicate w 0) [0 ..< h])),
      image_size = (\<lambda>img. if img = 1 then (20, 20) else if img = 2 then (25, 10) else (10, 10))\<rparr>"

section \<open>legacy/record_photo.py: ScreenCapture\<close>

subsection \<open>The file name of a frame\<close>

text \<open>
  \<^verbatim>\<open>f"{timestamp:.3f}"\<close>: the timestamp rounded to three decimals, ties to the even
  neighbour, written with a sign when it is negative, the whole part in decimal digits, a dot
  and exactly three decimals.  A timestamp is a rational number here (every Python float
  is one).
\<close>

definition round_half_even :: "rat \<Rightarrow> nat" where
  "round_half_even q =
     (let f = nat \<lfloor>q\<rfloor>; d = q - of_int \<lfloor>q\<rfloor>
      in if d < 1 / 2 then f else if 1 / 2 < d then f + 1 else if even f then f else f + 1)"

definition digit_char :: "nat \<Rightarrow> char" where
  "digit_char d = ''0123456789'' ! (d mod 10)"

fun str_nat :: "nat \<Rightarrow> string" where
  "str_nat n = (if n < 10 then [digit_char n] else str_nat (n div 10) @ [digit_char (n mod 10)])"

definition format_3f :: "rat \<Rightarrow> string" where
  "format_3f t =
     (let n = round_half_even (\<bar>t\<bar> * 1000)
      in (if t < 0 then ''-'' else []) @ str_nat (n div 1000) @ ''.'' @
         [digit_char (n div 100 mod 10), digit_char (n div 10 mod 10), digit_char (n mod 10)])"

definition frame_filename :: "rat \<Rightarrow> string" where
  "frame_filename timestamp = ''frame_'' @ format_3f timestamp @ ''.jpg''"

text \<open>\<^verbatim>\<open>os.path.join(a, b)\<close> on POSIX, for a second component that is not absolute.\<close>

definition path_join :: "string \<Rightarrow> string \<Rightarrow> string" where
  "path_join a b = (if a = [] \<or> last a = CHR ''/'' then a @ b else a @ ''/'' @ b)"

subsection \<open>The threads and the queue\<close>

text \<open>
  The capture thread runs \<open>capture_screen\<close>, the save thread runs \<open>save_frames\<close>, and the
  main thread runs \<open>stop_capture\<close> once it is asked to stop.  They share \<open>stop_event\<close> and
  \<open>frame_queue\<close>, a \<^verbatim>\<open>Queue(maxsize=30)\<close> held as a list with the oldest item first.
  Every thread is a small state machine whose state is the place it has reached in its
  function, and one step of a thread is one access to the shared state.  An interleaving of
  the three threads is a list of events.
\<close>

datatype 'f capture_thread = PLoop | PPut 'f rat | PBlocked 'f rat | PDone

datatype save_thread = WLoop | WGet | WDone | WCrashed py_error

datatype main_thread = MRunning | MJoinCapture | MSaveAlive | MDrainTest | MDrainGet | MJoinSave
  | MStopped

record 'f screen_capture =
  output_folder :: string
  stop_event :: bool
  frame_queue :: "('f \<times> rat) list"
  maxsize :: nat
  capture_thread :: "'f capture_thread"
  save_thread :: save_thread
  main_thread :: main_thread
  written :: "(string \<times> 'f) list"

text \<open>\<open>__init__\<close> followed by \<open>start_capture\<close>: both threads are started.\<close>

definition start_capture :: "string \<Rightarrow> 'f screen_capture" where
  "start_capture folder =
     \<lparr>output_folder = folder, stop_event = False, frame_queue = [], maxsize = 30,
      capture_thread = PLoop, save_thread = WLoop, main_thread = MRunning, written = []\<rparr>"

text \<open>\<^verbatim>\<open>Queue.full()\<close>, \<^verbatim>\<open>Queue.empty()\<close> and the blocking \<^verbatim>\<open>Queue.put(item)\<close>.\<close>

definition full :: "'f screen_capture \<Rightarrow> bool" where
  "full s = (0 < maxsize s \<and> maxsize s \<le> length (frame_queue s))"

definition empty :: "'f screen_capture \<Rightarrow> bool" where
  "empty s = (frame_queue s = [])"

definition put :: "'f \<Rightarrow> rat \<Rightarrow> 'f screen_capture \<Rightarrow> 'f screen_capture" where
  "put frame rel_timestamp s =
     (if full s then s\<lparr>capture_thread := PBlocked frame rel_timestamp\<rparr>
      else s\<lparr>frame_queue := frame_queue s @ [(frame, rel_timestamp)], capture_thread := PLoop\<rparr>)"

subsection \<open>capture_screen\<close>

text \<open>
  What one iteration of the capture loop meets: the frame interval has not elapsed (the
  thread sleeps), the grab raises (the error is printed), or a frame is grabbed and stamped.
\<close>

datatype 'f grab = NotDue | GrabFails | Grabbed 'f rat

definition capture_screen_step :: "'f grab \<Rightarrow> 'f screen_capture \<Rightarrow> 'f screen_capture" where
  "capture_screen_step g s =
     (case capture_thread s of
        PLoop \<Rightarrow>
          if stop_event s then s\<lparr>capture_thread := PDone\<rparr>
          else (case g of
                  NotDue \<Rightarrow> s
                | GrabFails \<Rightarrow> s
                | Grabbed frame rel_timestamp \<Rightarrow>
                    if \<not> full s then s\<lparr>capture_thread := PPut frame rel_timestamp\<rparr> else s)
      | PPut frame rel_timestamp \<Rightarrow> put frame rel_timestamp s
      | PBlocked frame rel_timestamp \<Rightarrow> put frame rel_timestamp s
      | PDone \<Rightarrow> s)"

subsection \<open>save_frames\<close>

text \<open>
  The module imports the class with \<^verbatim>\<open>from queue import Queue\<close>, so \<^verbatim>\<open>Queue.Empty\<close> in
  the first \<open>except\<close> clause is an attribute of the class \<open>Queue\<close>.  The class has the
  attributes listed below and no attribute \<open>Empty\<close> (the exception is \<open>queue.Empty\<close>, of the
  module).  Python evaluates the expression of an \<open>except\<close> clause when an exception reaches
  the clause; an exception raised by that evaluation leaves the \<open>try\<close> statement, and the later
  clauses are not tried.  \<open>save_frames_except e\<close> is the outcome for an exception \<open>e\<close>
  raised in the \<open>try\<close> body: \<open>Inr ()\<close> when a clause handles it and the loop goes on,
  \<open>Inl e'\<close> when \<open>e'\<close> leaves the function and ends the thread.
\<close>

definition Queue_attributes :: "string list" where
  "Queue_attributes =
     [''empty'', ''full'', ''get'', ''get_nowait'', ''join'', ''put'', ''put_nowait'', ''qsize'',
      ''task_done'']"

definition save_frames_except :: "py_error \<Rightarrow> py_error + unit" where
  "save_frames_except e =
     (if ''Empty'' \<notin> set Queue_attributes then Inl AttributeError
      else if e = QueueEmpty then Inr ()
      else Inr ())"

definition raise_in_save_frames :: "py_error \<Rightarrow> 'f screen_capture \<Rightarrow> 'f screen_capture" where
  "raise_in_save_frames e s =
     (case save_frames_except e of
        Inl e' \<Rightarrow> s\<lparr>save_thread := WCrashed e'\<rparr>
      | Inr _ \<Rightarrow> s\<lparr>save_thread := WLoop\<rparr>)"

text \<open>
  A step of the save thread in \<^verbatim>\<open>get(timeout=1)\<close>: with an item in the queue it takes the
  oldest and writes it (\<open>write_ok\<close> tells whether \<open>cv2.imwrite\<close> returns or raises); with an
  empty queue it goes on waiting, or the second has passed (\<open>timeout\<close>) and \<open>get\<close> raises
  \<open>queue.Empty\<close>.
\<close>

definition save_frames_step :: "bool \<Rightarrow> bool \<Rightarrow> 'f screen_capture \<Rightarrow> 'f screen_capture" where
  "save_frames_step timeout write_ok s =
     (case save_thread s of
        WLoop \<Rightarrow>
          if \<not> (stop_event s \<and> empty s) then s\<lparr>save_thread := WGet\<rparr>
          else s\<lparr>save_thread := WDone\<rparr>
      | WGet \<Rightarrow>
          (case frame_queue s of
             [] \<Rightarrow> if timeout then raise_in_save_frames QueueEmpty s else s
           | (frame, timestamp) # rest \<Rightarrow>
               if write_ok
               then s\<lparr>frame_queue := rest,
                      written := written s @
                        [(path_join (output_folder s) (frame_filename timestamp), frame)],
                      save_thread := WLoop\<rparr>
               else raise_in_save_frames OtherError (s\<lparr>frame_queue := rest\<rparr>))
      | WDone \<Rightarrow> s
      | WCrashed e \<Rightarrow> s)"

subsection \<open>stop_capture\<close>

definition save_thread_alive :: "'f screen_capture \<Rightarrow> bool" where
  "save_thread_alive s = (case save_thread s of WLoop \<Rightarrow> True | WGet \<Rightarrow> True | _ \<Rightarrow> False)"

definition stop_capture_step :: "'f screen_capture \<Rightarrow> 'f screen_capture" where
  "stop_capture_step s =
     (case main_thread s of
        MRunning \<Rightarrow>
          if \<not> stop_event s then s\<lparr>stop_event := True, main_thread := MJoinCapture\<rparr>
          else s\<lparr>main_thread := MStopped\<rparr>
      | MJoinCapture \<Rightarrow>
          if capture_thread s = PDone then s\<lparr>main_thread := MSaveAlive\<rparr> else s
      | MSaveAlive \<Rightarrow>
          if save_thread_alive s then s\<lparr>main_thread := MDrainTest\<rparr>
          else s\<lparr>main_thread := MStopped\<rparr>
      | MDrainTest \<Rightarrow>
          if \<not> empty s then s\<lparr>main_thread := MDrainGet\<rparr> else s\<lparr>main_thread := MJoinSave\<rparr>
      | MDrainGet \<Rightarrow>
          (case frame_queue s of
             [] \<Rightarrow> s
           | item # rest \<Rightarrow> s\<lparr>frame_queue := rest, main_thread := MDrainTest\<rparr>)
      | MJoinSave \<Rightarrow> if save_thread_alive s then s else s\<lparr>main_thread := MStopped\<rparr>
      | MStopped \<Rightarrow> s)"

subsection \<open>Interleavings\<close>

datatype 'f event = Capture "'f grab" | Save bool bool | Stop

definition step :: "'f screen_capture \<Rightarrow> 'f event \<Rightarrow> 'f screen_capture" where
  "step s e =
     (case e of
        Capture g \<Rightarrow> capture_screen_step g s
      | Save timeout write_ok \<Rightarrow> save_frames_step timeout write_ok s
      | Stop \<Rightarrow> stop_capture_step s)"

definition run :: "'f event list \<Rightarrow> 'f screen_capture \<Rightarrow> 'f screen_capture" where
  "run es s = foldl step s es"

section \<open>The bounded queue\<close>

definition queue_inv :: "'f screen_capture \<Rightarrow> bool" where
  "queue_inv s =
     (maxsize s = 30 \<and> length (frame_queue s) \<le> 30 \<and>
      (case capture_thread s of
         PPut frame rel_timestamp \<Rightarrow> length (frame_queue s) < 30
       | PBlocked frame rel_timestamp \<Rightarrow> False
       | _ \<Rightarrow> True))"

section \<open>gideon/mechanisms/save.py: add_recordings\<close>

subsection \<open>The timestamp read from a path\<close>

text \<open>
  \<^verbatim>\<open>float(s)\<close> for the strings that can reach it here.  The argument is a piece of a file
  name between an underscore and the next dot; the model reads an optional sign followed by
  decimal digits and raises ValueError otherwise.  (Python's \<open>float\<close> also reads exponents,
  \<open>inf\<close>, \<open>nan\<close> and surrounding blanks; no name written by \<open>save_frames\<close> has them.)
\<close>

definition is_digit :: "char \<Rightarrow> bool" where
  "is_digit c = (c \<in> set ''0123456789'')"

definition digit_value :: "char \<Rightarrow> nat" where
  "digit_value c = length (takeWhile (\<lambda>d. d \<noteq> c) ''0123456789'')"

definition nat_of_digits :: "string \<Rightarrow> nat" where
  "nat_of_digits ds = foldl (\<lambda>n c. 10 * n + digit_value c) 0 ds"

definition py_float :: "string \<Rightarrow> py_error + rat" where
  "py_float s =
     (let negative = (s \<noteq> [] \<and> hd s = CHR ''-'');
          ds = (if s \<noteq> [] \<and> (hd s = CHR ''-'' \<or> hd s = CHR ''+'') then tl s else s)
      in if ds \<noteq> [] \<and> list_all is_digit ds
         then Inr ((if negative then - 1 else 1) * of_nat (nat_of_digits ds))
         else Inl ValueError)"

text \<open>\<^verbatim>\<open>float(path.split('/')[-1].split('_')[1].split('.')[0])\<close>\<close>

definition timestamp_of_path :: "string \<Rightarrow> py_error + rat" where
  "timestamp_of_path path =
     (case py_index (split_on CHR ''/'' path) (- 1) of
        Inl e \<Rightarrow> Inl e
      | Inr name \<Rightarrow>
          (case py_index (split_on CHR ''_'' name) 1 of
             Inl e \<Rightarrow> Inl e
           | Inr after_underscore \<Rightarrow>
               (case py_index (split_on CHR ''.'' after_underscore) 0 of
                  Inl e \<Rightarrow> Inl e
                | Inr before_dot \<Rightarrow> py_float before_dot)))"

text \<open>A property of a selected member, used in the statements about \<open>highest_res\<close>.\<close>

definition is_first_greatest :: "('a \<Rightarrow> nat) \<Rightarrow> 'a list \<Rightarrow> 'a \<Rightarrow> bool" where
  "is_first_greatest key grp r =
     (\<exists>pre post. grp = pre @ r # post \<and>
        (\<forall>m\<in>set pre. key m < key r) \<and> (\<forall>m\<in>set post. key m \<le> key r))"

subsection \<open>The files of the output folder\<close>

text \<open>
  The output folder holds regular files directly in it (the Frame Writer makes no
  subfolder); \<open>disk\<close> lists their names.  Two path strings name a file of the folder in the
  code.  \<open>rglob_path folder name\<close> is \<^verbatim>\<open>str(path)\<close> for the path that
  \<^verbatim>\<open>Path(folder).rglob('*')\<close> yields: \<open>pathlib\<close> drops the empty components and the
  components \<open>.\<close> of the folder, so the default folder \<open>./temp_photo\<close> gives
  \<open>temp_photo/name\<close>.  \<open>path_join folder name\<close> is \<^verbatim>\<open>os.path.join(folder, name)\<close>, which
  keeps the folder as it is written.  \<open>refers folder path name\<close> says that \<open>path\<close> is one
  of the two; \<open>os.remove\<close> and \<open>open\<close> act on the file a path refers to.
\<close>

definition path_parts :: "string \<Rightarrow> string list" where
  "path_parts p = filter (\<lambda>c. c \<noteq> [] \<and> c \<noteq> ''.'') (split_on CHR ''/'' p)"

fun join_parts :: "string list \<Rightarrow> string" where
  "join_parts [] = []"
| "join_parts [c] = c"
| "join_parts (c # d # cs) = c @ ''/'' @ join_parts (d # cs)"

definition rglob_path :: "string \<Rightarrow> string \<Rightarrow> string" where
  "rglob_path folder name =
     (if folder \<noteq> [] \<and> hd folder = CHR ''/'' then ''/'' else []) @
     join_parts (path_parts folder @ [name])"




subsection \<open>The hand-off to the storage collaborator\<close>




section \<open>gideon/client.py: one cycle of GideonCapture._dedup_and_update_db\<close>







lemma count_differing_pairs:
  "sum_list (map (\<lambda>(c1, c2). if c1 \<noteq> c2 then 1 else 0) ps) =
   length (filter (\<lambda>(c1, c2). c1 \<noteq> c2) ps)"
  by (induction ps) auto

lemma hamming_distance_filter:
  "hamming_distance h1 h2 = length (filter (\<lambda>(c1, c2). c1 \<noteq> c2) (zip h1 h2))"
  unfolding hamming_distance_def by (rule count_differing_pairs)

lemma hamming_distance_sym: "hamming_distance h1 h2 = hamming_distance h2 h1"
proof (induction h1 arbitrary: h2)
  case Nil
  then show ?case by (simp add: hamming_distance_def)
next
  case (Cons a h1)
  then show ?case by (cases h2) (auto simp: hamming_distance_def)
qed

lemma hamming_distance_self: "hamming_distance h h = 0"
  by (induction h) (auto simp: hamming_distance_def)

lemma differing_positions_card:
  "length (filter (\<lambda>(c1, c2). c1 \<noteq> c2) (zip h1 h2)) =
   card {i. i < min (length h1) (length h2) \<and> h1 ! i \<noteq> h2 ! i}"
proof -
  have "length (filter (\<lambda>(c1, c2). c1 \<noteq> c2) (zip h1 h2)) =
        card {i. i < length (zip h1 h2) \<and> (\<lambda>(c1, c2). c1 \<noteq> c2) (zip h1 h2 ! i)}"
    by (rule length_filter_conv_card)
  also have "{i. i < length (zip h1 h2) \<and> (\<lambda>(c1, c2). c1 \<noteq> c2) (zip h1 h2 ! i)} =
             {i. i < min (length h1) (length h2) \<and> h1 ! i \<noteq> h2 ! i}"
    by auto
  finally show ?thesis .
qed

text \<open>
  C10.  \<open>hamming_distance\<close> is a total function on every pair of strings.  On strings of
  unequal length it does not fail: it counts the positions below the length of the shorter
  string at which the two strings differ, so the result never exceeds that length.
\<close>

theorem hamming_distance_common_prefix:
  "hamming_distance h1 h2 = card {i. i < min (length h1) (length h2) \<and> h1 ! i \<noteq> h2 ! i}
   \<and> hamming_distance h1 h2 = hamming_distance (take (length h2) h1) (take (length h1) h2)
   \<and> hamming_distance h1 h2 \<le> min (length h1) (length h2)"
proof -
  have a: "hamming_distance h1 h2 =
           card {i. i < min (length h1) (length h2) \<and> h1 ! i \<noteq> h2 ! i}"
    by (simp only: hamming_distance_filter differing_positions_card)
  have "zip (take (length h2) h1) (take (length h1) h2) = zip h1 h2"
  proof (induction h1 arbitrary: h2)
    case Nil
    then show ?case by simp
  next
    case (Cons a h1)
    then show ?case by (cases h2) simp_all
  qed
  then have b: "hamming_distance h1 h2 =
                hamming_distance (take (length h2) h1) (take (length h1) h2)"
    by (simp add: hamming_distance_def)
  have "length (filter (\<lambda>(c1, c2). c1 \<noteq> c2) (zip h1 h2)) \<le> length (zip h1 h2)"
    by (rule length_filter_le)
  then have c: "hamming_distance h1 h2 \<le> min (length h1) (length h2)"
    by (simp add: hamming_distance_filter)
  from a b c show ?thesis by blast
qed

theorem hamming_distance_common_prefix_witness:
  "hamming_distance ''10110'' ''111'' = 1 \<and> hamming_distance ''10110'' ''111'' \<le> 3"
  using hamming_distance_common_prefix [of "''10110''" "''111''"]
  by (simp add: hamming_distance_def)

subsection \<open>The loops of group_similar_images\<close>

lemma admit_fold:
  "distinct (map fst ys) \<Longrightarrow>
   foldl (admit t h1) (cur, P) ys =
     (cur @ map fst [y \<leftarrow> ys. fst y \<notin> P \<and> near t h1 y],
      P \<union> fst ` set [y \<leftarrow> ys. fst y \<notin> P \<and> near t h1 y])"
proof (induction ys arbitrary: cur P)
  case Nil
  then show ?case by simp
next
  case (Cons y ys)
  obtain p h where y: "y = (p, h)" by (cases y)
  from Cons.prems have d: "distinct (map fst ys)" and np: "p \<notin> fst ` set ys"
    by (auto simp: y)
  show ?case
  proof (cases "p \<notin> P \<and> near t h1 y")
    case True
    have eq: "[z \<leftarrow> ys. fst z \<notin> insert p P \<and> near t h1 z] = [z \<leftarrow> ys. fst z \<notin> P \<and> near t h1 z]"
      using np by (intro filter_cong) auto
    from True have "foldl (admit t h1) (cur, P) (y # ys) =
        foldl (admit t h1) (cur @ [p], insert p P) ys"
      by (simp add: admit_def y near_def)
    also have "\<dots> = ((cur @ [p]) @ map fst [z \<leftarrow> ys. fst z \<notin> P \<and> near t h1 z],
        insert p P \<union> fst ` set [z \<leftarrow> ys. fst z \<notin> P \<and> near t h1 z])"
      by (simp only: Cons.IH [OF d] eq)
    finally show ?thesis using True by (simp add: y)
  next
    case False
    then have "foldl (admit t h1) (cur, P) (y # ys) = foldl (admit t h1) (cur, P) ys"
      by (auto simp add: admit_def y near_def)
    also have "\<dots> = (cur @ map fst [z \<leftarrow> ys. fst z \<notin> P \<and> near t h1 z],
        P \<union> fst ` set [z \<leftarrow> ys. fst z \<notin> P \<and> near t h1 z])"
      by (rule Cons.IH [OF d])
    finally show ?thesis using False by (auto simp add: y)
  qed
qed

lemma near_self: "0 \<le> t \<Longrightarrow> near t (snd x) x"
  by (simp add: near_def hamming_distance_self)

lemma fst_eq_in_distinct:
  "distinct (map fst ys) \<Longrightarrow> y \<in> set ys \<Longrightarrow> z \<in> set ys \<Longrightarrow> fst z = fst y \<Longrightarrow> z = y"
  by (meson distinct_map inj_onD)

lemma open_group_fold:
  "0 \<le> t \<Longrightarrow> distinct (map fst items) \<Longrightarrow> items = pre @ xs \<Longrightarrow> fst ` set pre \<subseteq> P \<Longrightarrow>
   fst (foldl (open_group items t) (gs, P) xs) = gs @ seed_groups t [x \<leftarrow> xs. fst x \<notin> P]"
proof (induction xs arbitrary: gs P pre)
  case Nil
  then show ?case by simp
next
  case (Cons x rest)
  obtain p1 h1 where x: "x = (p1, h1)" by (cases x)
  have items: "items = (pre @ [x]) @ rest" using Cons.prems(3) by simp
  have dist_rest: "distinct (map fst rest)" and p1_rest: "p1 \<notin> fst ` set rest"
    using Cons.prems(2,3) by (auto simp: x)
  show ?case
  proof (cases "p1 \<in> P")
    case True
    then have step: "open_group items t (gs, P) x = (gs, P)"
      by (simp add: open_group_def x)
    have sub: "fst ` set (pre @ [x]) \<subseteq> P" using True Cons.prems(4) by (simp add: x)
    have "fst (foldl (open_group items t) (gs, P) (x # rest)) =
          fst (foldl (open_group items t) (gs, P) rest)"
      by (simp add: step)
    also have "\<dots> = gs @ seed_groups t [y \<leftarrow> rest. fst y \<notin> P]"
      by (rule Cons.IH [OF Cons.prems(1,2) items sub])
    finally show ?thesis using True by (simp add: x)
  next
    case False
    define C where "C = p1 # map fst [y \<leftarrow> rest. fst y \<notin> P \<and> near t h1 y]"
    define P' where "P' = P \<union> set C"
    have pre_none: "[y \<leftarrow> pre. fst y \<notin> P \<and> near t h1 y] = []"
      using Cons.prems(4) by (auto simp: filter_empty_conv)
    have x_near: "near t h1 x" using near_self [OF Cons.prems(1), of x] by (simp add: x)
    have sel: "[y \<leftarrow> items. fst y \<notin> P \<and> near t h1 y] =
               x # [y \<leftarrow> rest. fst y \<notin> P \<and> near t h1 y]"
      using False x_near by (simp add: Cons.prems(3) pre_none x)
    have inner: "foldl (admit t h1) ([], P) items = (C, P')"
      by (simp add: admit_fold [OF Cons.prems(2)] sel C_def P'_def x)
    have step: "open_group items t (gs, P) x = (gs @ [C], P')"
      using False by (simp add: open_group_def x inner C_def)
    have sub: "fst ` set (pre @ [x]) \<subseteq> P'"
      using Cons.prems(4) by (auto simp: P'_def C_def x)
    have rest_eq: "[y \<leftarrow> rest. fst y \<notin> P'] =
                   filter (\<lambda>y. \<not> near t h1 y) [y \<leftarrow> rest. fst y \<notin> P]"
      unfolding filter_filter
    proof (rule filter_cong [OF refl])
      fix y assume y: "y \<in> set rest"
      then have ne: "fst y \<noteq> p1" using p1_rest by auto
      have "fst y \<in> fst ` {z \<in> set rest. fst z \<notin> P \<and> near t h1 z}
            \<longleftrightarrow> fst y \<notin> P \<and> near t h1 y"
        using fst_eq_in_distinct [OF dist_rest y] y by auto
      then show "(fst y \<notin> P') = (fst y \<notin> P \<and> \<not> near t h1 y)"
        using ne by (auto simp: P'_def C_def)
    qed
    have near_eq: "filter (near t h1) [y \<leftarrow> rest. fst y \<notin> P] =
                   [y \<leftarrow> rest. fst y \<notin> P \<and> near t h1 y]"
      by (simp add: conj_commute)
    have "fst (foldl (open_group items t) (gs, P) (x # rest)) =
          fst (foldl (open_group items t) (gs @ [C], P') rest)"
      by (simp add: step)
    also have "\<dots> = (gs @ [C]) @ seed_groups t [y \<leftarrow> rest. fst y \<notin> P']"
      by (rule Cons.IH [OF Cons.prems(1,2) items sub])
    also have "\<dots> = gs @ seed_groups t (x # [y \<leftarrow> rest. fst y \<notin> P])"
      by (simp add: rest_eq near_eq C_def x)
    finally show ?thesis using False by (simp add: x)
  qed
qed

lemma group_similar_images_seed_groups:
  "0 \<le> threshold self \<Longrightarrow> distinct (map fst (image_hashes self)) \<Longrightarrow>
   groups (group_similar_images self) = seed_groups (threshold self) (image_hashes self)"
  using open_group_fold [of "threshold self" "image_hashes self" "[]" "image_hashes self" "{}" "[]"]
  by (simp add: group_similar_images_def)

lemma open_group_negative:
  "t < 0 \<Longrightarrow> foldl (open_group items t) (gs, P) xs = (gs, P)"
proof (induction xs)
  case Nil
  then show ?case by simp
next
  case (Cons x xs)
  have "foldl (admit t h1) (cur, P) ys = (cur, P)" for h1 cur ys
    using Cons.prems by (induction ys) (auto simp: admit_def)
  then have "open_group items t (gs, P) x = (gs, P)"
    by (cases x) (simp add: open_group_def)
  then show ?case using Cons by simp
qed

lemma seed_groups_far:
  "sorted_wrt (\<lambda>x y. \<not> near t (snd x) y) xs \<Longrightarrow> seed_groups t xs = map (\<lambda>x. [fst x]) xs"
proof (induction xs)
  case Nil
  then show ?case by simp
next
  case (Cons x xs)
  then have far: "\<forall>y\<in>set xs. \<not> near t (snd x) y" and rest: "sorted_wrt (\<lambda>x y. \<not> near t (snd x) y) xs"
    by simp_all
  from far have a: "filter (near t (snd x)) xs = []" by (simp add: filter_empty_conv)
  from far have b: "filter (\<lambda>y. \<not> near t (snd x) y) xs = xs" by (simp add: filter_id_conv)
  show ?case using Cons.IH [OF rest] by (simp add: a b)
qed

lemma seed_groups_same:
  "0 \<le> t \<Longrightarrow> \<forall>x\<in>set xs. snd x = h \<Longrightarrow> xs \<noteq> [] \<Longrightarrow> seed_groups t xs = [map fst xs]"
proof (cases xs)
  case Nil
  assume "xs \<noteq> []" with Nil show ?thesis by simp
next
  case (Cons x rest)
  assume t: "0 \<le> t" and same: "\<forall>x\<in>set xs. snd x = h"
  have all_near: "\<forall>y\<in>set rest. near t (snd x) y"
    using same t by (simp add: Cons near_def hamming_distance_self)
  then have a: "filter (near t (snd x)) rest = rest" by (simp add: filter_id_conv)
  from all_near have b: "filter (\<lambda>y. \<not> near t (snd x) y) rest = []" by (simp add: filter_empty_conv)
  show ?thesis by (simp add: Cons a b)
qed

lemma seed_groups_nonempty: "[] \<notin> set (seed_groups t xs)"
proof (induction t xs rule: seed_groups.induct)
  case (1 t)
  then show ?case by simp
next
  case (2 t x rest)
  then show ?case by simp
qed

lemma seed_groups_heads: "map hd (seed_groups t xs) = map fst (seeds t xs)"
proof (induction t xs rule: seed_groups.induct)
  case (1 t)
  then show ?case by simp
next
  case (2 t x rest)
  then show ?case by simp
qed

lemma seeds_subset: "set (seeds t xs) \<subseteq> set xs"
proof (induction t xs rule: seeds.induct)
  case (1 t)
  then show ?case by simp
next
  case (2 t x rest)
  then have "set (seeds t (filter (\<lambda>y. \<not> near t (snd x) y) rest)) \<subseteq> set rest"
    by (meson filter_is_subset subset_trans)
  then show ?case by (simp add: subset_insertI2)
qed

lemma seeds_far: "sorted_wrt (\<lambda>x y. \<not> near t (snd x) y) (seeds t xs)"
proof (induction t xs rule: seeds.induct)
  case (1 t)
  then show ?case by simp
next
  case (2 t x rest)
  let ?r = "filter (\<lambda>y. \<not> near t (snd x) y) rest"
  have sub: "set (seeds t ?r) \<subseteq> set ?r"
    by (rule seeds_subset)
  have a: "\<forall>y\<in>set (seeds t ?r). \<not> near t (snd x) y"
  proof
    fix y assume "y \<in> set (seeds t ?r)"
    with sub have "y \<in> set ?r" by (rule subsetD)
    then show "\<not> near t (snd x) y" by simp
  qed
  have b: "sorted_wrt (\<lambda>x y. \<not> near t (snd x) y) (seeds t ?r)" by (rule 2)
  show ?case unfolding seeds.simps sorted_wrt.simps using a b by blast
qed

lemma near_sym: "near t (snd x) y = near t (snd y) x"
  unfolding near_def by (simp only: hamming_distance_sym [of "snd x" "snd y"])

lemma sorted_wrt_of_pairwise:
  "distinct xs \<Longrightarrow> \<forall>x\<in>set xs. \<forall>y\<in>set xs. x \<noteq> y \<longrightarrow> R x y \<Longrightarrow> sorted_wrt R xs"
proof (induction xs)
  case Nil
  then show ?case by simp
next
  case (Cons a xs)
  then have "sorted_wrt R xs" by simp
  moreover have "\<forall>y\<in>set xs. R a y" using Cons.prems by auto
  ultimately show ?case by simp
qed

lemma seeds_pairwise_far:
  assumes "x \<in> set (seeds t xs)" "y \<in> set (seeds t xs)" "x \<noteq> y"
  shows "\<not> near t (snd x) y"
proof -
  let ?s = "seeds t xs"
  have ord: "\<And>i j. i < j \<Longrightarrow> j < length ?s \<Longrightarrow> \<not> near t (snd (?s ! i)) (?s ! j)"
    using seeds_far [of t xs] by (simp add: sorted_wrt_iff_nth_less)
  from assms(1) obtain i where i: "i < length ?s" "?s ! i = x" by (auto simp: in_set_conv_nth)
  from assms(2) obtain j where j: "j < length ?s" "?s ! j = y" by (auto simp: in_set_conv_nth)
  from assms(3) i j have "i \<noteq> j" by auto
  then consider "i < j" | "j < i" by linarith
  then show ?thesis
  proof cases
    case 1
    from ord [OF 1 j(1)] show ?thesis by (simp add: i j)
  next
    case 2
    from ord [OF 2 i(1)] have "\<not> near t (snd y) x" by (simp add: i j)
    with near_sym [of t x y] show ?thesis by blast
  qed
qed

subsection \<open>process_directory on distinct paths\<close>

lemma dict_set_fresh: "k \<notin> fst ` set kvs \<Longrightarrow> dict_set k v kvs = kvs @ [(k, v)]"
  by (induction kvs) auto

lemma hash_one_shape: "hash_one env [] p = [] \<or> (\<exists>v. hash_one env [] p = [(p, v)])"
  by (simp add: hash_one_def split: option.splits)

lemma hash_one_fresh:
  "p \<notin> fst ` set acc \<Longrightarrow> hash_one env acc p = acc @ hash_one env [] p"
  by (simp add: hash_one_def dict_set_fresh split: option.splits)

lemma hash_one_keys: "fst ` set (hash_one env [] p) \<subseteq> {p}"
  using hash_one_shape [of env p] by auto

lemma hash_fold:
  "distinct paths \<Longrightarrow> set paths \<inter> fst ` set acc = {} \<Longrightarrow>
   foldl (hash_one env) acc paths = acc @ concat (map (hash_one env []) paths)"
proof (induction paths arbitrary: acc)
  case Nil
  then show ?case by simp
next
  case (Cons p paths)
  then have fresh: "p \<notin> fst ` set acc" by auto
  have d: "distinct paths" and np: "p \<notin> set paths" using Cons.prems(1) by simp_all
  have disj: "set paths \<inter> fst ` set (acc @ hash_one env [] p) = {}"
  proof -
    have "set paths \<inter> fst ` set acc = {}" using Cons.prems(2) by auto
    moreover have "set paths \<inter> fst ` set (hash_one env [] p) = {}"
      using hash_one_keys [of env p] np by auto
    ultimately show ?thesis by (simp add: image_Un Int_Un_distrib)
  qed
  have "foldl (hash_one env) acc (p # paths) = foldl (hash_one env) (acc @ hash_one env [] p) paths"
    by (simp add: hash_one_fresh [OF fresh])
  also have "\<dots> = (acc @ hash_one env [] p) @ concat (map (hash_one env []) paths)"
    by (rule Cons.IH [OF d disj])
  finally show ?case by simp
qed

lemma image_hashes_process_directory:
  "distinct paths \<Longrightarrow>
   image_hashes (process_directory env paths self) = concat (map (hash_one env []) paths)"
  using hash_fold [of paths "[]" env] by (simp add: process_directory_def)

lemma keys_hashed_subset: "fst ` set (concat (map (hash_one env []) paths)) \<subseteq> set paths"
proof (induction paths)
  case Nil
  then show ?case by simp
next
  case (Cons p paths)
  then show ?case using hash_one_keys [of env p] by (auto simp: image_Un)
qed

lemma keys_hashed_distinct:
  "distinct paths \<Longrightarrow> distinct (map fst (concat (map (hash_one env []) paths)))"
proof (induction paths)
  case Nil
  then show ?case by simp
next
  case (Cons p paths)
  have d: "distinct (map fst (concat (map (hash_one env []) paths)))" using Cons by simp
  have np: "p \<notin> fst ` set (concat (map (hash_one env []) paths))"
    using keys_hashed_subset [of env paths] Cons.prems by auto
  from hash_one_shape [of env p] show ?case
  proof
    assume "hash_one env [] p = []"
    then show ?thesis using d by simp
  next
    assume "\<exists>v. hash_one env [] p = [(p, v)]"
    then obtain v where "hash_one env [] p = [(p, v)]" ..
    then show ?thesis using d np by simp
  qed
qed

lemma hashed_readable:
  "\<forall>p\<in>set paths. py_lower (path_suffix p) \<in> valid_extensions \<and>
      calculate_dhash env p 8 = Some (h p) \<and> h p \<noteq> [] \<Longrightarrow>
   concat (map (hash_one env []) paths) = map (\<lambda>p. (p, h p)) paths"
  by (induction paths) (simp_all add: hash_one_def)

lemma groups_cases:
  "distinct (map fst (image_hashes self)) \<Longrightarrow>
   groups (group_similar_images self) =
     (if 0 \<le> threshold self then seed_groups (threshold self) (image_hashes self) else [])"
proof (cases "0 \<le> threshold self")
  case True
  assume "distinct (map fst (image_hashes self))"
  with True show ?thesis by (simp add: group_similar_images_seed_groups)
next
  case False
  then have "threshold self < 0" by simp
  with False show ?thesis by (simp add: group_similar_images_def open_group_negative)
qed

subsection \<open>select_representatives on non-empty groups\<close>

lemma select_one_first:
  "grp \<noteq> [] \<Longrightarrow> select_one env choice ''first'' grp = Inr (hd grp)"
  by (cases grp) (simp_all add: select_one_def py_index_def)

lemma select_loop_first:
  "[] \<notin> set gs \<Longrightarrow> select_loop env choice ''first'' gs reps = Inr (reps \<union> hd ` set gs)"
proof (induction gs arbitrary: reps)
  case Nil
  then show ?case by simp
next
  case (Cons g gs)
  then have g: "g \<noteq> []" and rest: "[] \<notin> set gs" by auto
  show ?case by (simp add: select_one_first [OF g] Cons.IH [OF rest])
qed

lemma select_one_singleton:
  "choice [p] = p \<Longrightarrow> select_one env choice method [p] = Inr p"
  by (simp add: select_one_def py_max_def py_index_def)

lemma select_loop_singletons:
  "\<forall>p\<in>set ps. choice [p] = p \<Longrightarrow>
   select_loop env choice method (map (\<lambda>p. [p]) ps) reps = Inr (reps \<union> set ps)"
proof (induction ps arbitrary: reps)
  case Nil
  then show ?case by simp
next
  case (Cons p ps)
  then have p: "choice [p] = p" and rest: "\<forall>p\<in>set ps. choice [p] = p" by simp_all
  have one: "select_one env choice method [p] = Inr p"
    using p by (rule select_one_singleton)
  show ?case by (simp add: one Cons.IH [OF rest])
qed

lemma select_one_ok: "grp \<noteq> [] \<Longrightarrow> \<exists>r. select_one env choice method grp = Inr r"
  by (cases grp) (simp_all add: select_one_def py_max_def py_index_def)

lemma select_loop_ok:
  "[] \<notin> set gs \<Longrightarrow> \<exists>R. select_loop env choice method gs reps = Inr R"
proof (induction gs arbitrary: reps)
  case Nil
  then show ?case by simp
next
  case (Cons g gs)
  then have g: "g \<noteq> []" and rest: "[] \<notin> set gs" by auto
  from select_one_ok [OF g] obtain r where r: "select_one env choice method g = Inr r" ..
  show ?case using Cons.IH [OF rest, of "insert r reps"] by (simp add: r)
qed

subsection \<open>Deduplicating a directory\<close>

lemma deduplicate_unfold:
  "select_loop env choice method
      (groups (group_similar_images (process_directory env paths self))) {} = Inr R \<Longrightarrow>
   deduplicate env choice paths method self =
     Inr (R, get_group_statistics
               ((group_similar_images (process_directory env paths self))\<lparr>representatives := R\<rparr>),
          (group_similar_images (process_directory env paths self))\<lparr>representatives := R\<rparr>)"
  by (simp add: deduplicate_def select_representatives_def)

lemma groups_of_directory:
  "distinct paths \<Longrightarrow>
   groups (group_similar_images (process_directory env paths self)) =
     (if 0 \<le> threshold self
      then seed_groups (threshold self) (concat (map (hash_one env []) paths)) else [])"
proof -
  assume d: "distinct paths"
  let ?s = "process_directory env paths self"
  have ih: "image_hashes ?s = concat (map (hash_one env []) paths)"
    using d by (rule image_hashes_process_directory)
  have th: "threshold ?s = threshold self" by (simp add: process_directory_def)
  have "distinct (map fst (image_hashes ?s))" using d by (simp add: ih keys_hashed_distinct)
  from groups_cases [OF this] show ?thesis by (simp add: ih th)
qed

lemma far_table_sorted:
  assumes d: "distinct paths"
    and far: "\<forall>p\<in>set paths. \<forall>q\<in>set paths. p \<noteq> q \<longrightarrow> t < int (hamming_distance (h p) (h q))"
  shows "sorted_wrt (\<lambda>x y. \<not> near t (snd x) y) (map (\<lambda>p. (p, h p)) paths)"
proof (rule sorted_wrt_of_pairwise)
  show "distinct (map (\<lambda>p. (p, h p)) paths)"
    using d by (simp add: distinct_map inj_on_def)
  show "\<forall>x\<in>set (map (\<lambda>p. (p, h p)) paths). \<forall>y\<in>set (map (\<lambda>p. (p, h p)) paths).
          x \<noteq> y \<longrightarrow> \<not> near t (snd x) y"
    using far by (force simp: near_def not_le)
qed

text \<open>
  C8.  For a directory of N readable images whose pairwise Hamming distances all strictly
  exceed the threshold, deduplication yields exactly N groups, each the singleton of its own
  image, in the order of the directory.  The threshold is the greatest Hamming distance at
  which two images count as similar, a distance and so not negative: that is the hypothesis
  \<open>0 \<le> threshold self\<close>.
\<close>

theorem far_apart_images_singleton_groups:
  assumes "distinct paths"
    and "\<forall>p\<in>set paths. py_lower (path_suffix p) \<in> valid_extensions \<and>
           calculate_dhash env p 8 = Some (h p) \<and> h p \<noteq> []"
    and "\<forall>p\<in>set paths. \<forall>q\<in>set paths.
           p \<noteq> q \<longrightarrow> threshold self < int (hamming_distance (h p) (h q))"
    and "0 \<le> threshold self"
  shows "\<exists>reps stats self'.
           deduplicate env choice paths method self = Inr (reps, stats, self') \<and>
           groups self' = map (\<lambda>p. [p]) paths \<and>
           unique_groups stats = length paths \<and>
           total_images stats = length paths"
proof -
  let ?s2 = "group_similar_images (process_directory env paths self)"
  have table: "concat (map (hash_one env []) paths) = map (\<lambda>p. (p, h p)) paths"
    using assms(2) by (rule hashed_readable)
  have "seed_groups (threshold self) (map (\<lambda>p. (p, h p)) paths) =
        map (\<lambda>x. [fst x]) (map (\<lambda>p. (p, h p)) paths)"
    using far_table_sorted [OF assms(1,3)] by (rule seed_groups_far)
  then have gs: "groups ?s2 = map (\<lambda>p. [p]) paths"
    using assms(4) by (simp add: groups_of_directory [OF assms(1)] table comp_def)
  have ih: "image_hashes ?s2 = map (\<lambda>p. (p, h p)) paths"
    using image_hashes_process_directory [OF assms(1), of env self]
    by (simp add: group_similar_images_def table)
  have "[] \<notin> set (groups ?s2)" by (auto simp: gs)
  from select_loop_ok [OF this] obtain R
    where R: "select_loop env choice method (groups ?s2) {} = Inr R" ..
  show ?thesis
    by (simp add: deduplicate_unfold [OF R] gs ih get_group_statistics_def)
qed

theorem far_apart_images_singleton_groups_witness:
  "\<exists>reps stats self'.
     deduplicate example_imaging hd [frame_a, frame_c, frame_d] ''highest_res''
       (init_deduplicator 1) = Inr (reps, stats, self') \<and>
     groups self' = [[frame_a], [frame_c], [frame_d]] \<and> unique_groups stats = 3"
proof -
  let ?h = "\<lambda>p. case calculate_dhash example_imaging p 8 of Some v \<Rightarrow> v | None \<Rightarrow> []"
  have d: "distinct [frame_a, frame_c, frame_d]" by simp
  have r: "\<forall>p\<in>set [frame_a, frame_c, frame_d].
             py_lower (path_suffix p) \<in> valid_extensions \<and>
             calculate_dhash example_imaging p 8 = Some (?h p) \<and> ?h p \<noteq> []"
    by code_simp
  have f: "\<forall>p\<in>set [frame_a, frame_c, frame_d]. \<forall>q\<in>set [frame_a, frame_c, frame_d].
             p \<noteq> q \<longrightarrow> threshold (init_deduplicator 1) < int (hamming_distance (?h p) (?h q))"
    by code_simp
  have t: "0 \<le> threshold (init_deduplicator 1)" by (simp add: init_deduplicator_def)
  from far_apart_images_singleton_groups [OF d r f t, of hd "''highest_res''"]
  show ?thesis by auto
qed

text \<open>
  Outside that domain, at a negative value of \<open>threshold\<close>, no image is within the
  threshold of itself, every group stays empty and none is stored.
\<close>

lemma negative_threshold_far_apart_images:
  "calculate_dhash example_imaging frame_a 8 = Some (replicate 64 CHR ''0'') \<and>
   calculate_dhash example_imaging frame_d 8 = Some (''11111111'' @ replicate 56 CHR ''0'') \<and>
   (-1) < int (hamming_distance (replicate 64 CHR ''0'') (''11111111'' @ replicate 56 CHR ''0'')) \<and>
   deduplicate example_imaging hd [frame_a, frame_d] ''first'' (init_deduplicator (-1)) =
     Inr ({}, \<lparr>total_images = 2, unique_groups = 0, total_duplicates = 2, group_sizes = [],
                largest_group_size = 0, average_group_size = 0, size_distribution = []\<rparr>,
          \<lparr>threshold = -1,
            image_hashes = [(frame_a, replicate 64 CHR ''0''),
                            (frame_d, ''11111111'' @ replicate 56 CHR ''0'')],
            groups = [], representatives = {}\<rparr>)"
  by code_simp

subsection \<open>max keeps the first greatest item\<close>

lemma max_from_split:
  "\<exists>pre post. b # xs = pre @ max_from key b xs # post \<and>
     (\<forall>m\<in>set pre. key m < key (max_from key b xs)) \<and>
     (\<forall>m\<in>set post. key m \<le> key (max_from key b xs))"
proof (induction xs arbitrary: b)
  case Nil
  show ?case by (rule exI [of _ "[]"], rule exI [of _ "[]"]) simp
next
  case (Cons x xs)
  show ?case
  proof (cases "key x > key b")
    case True
    then have r: "max_from key b (x # xs) = max_from key x xs" by simp
    from Cons.IH [of x] obtain pre post where
      s: "x # xs = pre @ max_from key x xs # post"
      and lo: "\<forall>m\<in>set pre. key m < key (max_from key x xs)"
      and hi: "\<forall>m\<in>set post. key m \<le> key (max_from key x xs)" by blast
    have "x \<in> set (pre @ max_from key x xs # post)" using s by (metis list.set_intros(1))
    then have "key x \<le> key (max_from key x xs)" using lo hi by auto
    with True have b: "key b < key (max_from key x xs)" by simp
    have "b # x # xs = (b # pre) @ max_from key x xs # post" using s by simp
    moreover have "\<forall>m\<in>set (b # pre). key m < key (max_from key x xs)" using b lo by simp
    ultimately show ?thesis unfolding r using hi
      by (intro exI [of _ "b # pre"] exI [of _ post]) simp
  next
    case False
    then have r: "max_from key b (x # xs) = max_from key b xs" by simp
    from Cons.IH [of b] obtain pre post where
      s: "b # xs = pre @ max_from key b xs # post"
      and lo: "\<forall>m\<in>set pre. key m < key (max_from key b xs)"
      and hi: "\<forall>m\<in>set post. key m \<le> key (max_from key b xs)" by blast
    show ?thesis
    proof (cases pre)
      case Nil
      have "b # xs = max_from key b xs # post"
        using s unfolding Nil by (simp only: append_Nil)
      then have c: "b = max_from key b xs \<and> xs = post"
        by (rule list.inject [THEN iffD1])
      have eq: "max_from key b xs = b" using c by (rule conjunct1 [THEN sym])
      have post: "post = xs" using c by (rule conjunct2 [THEN sym])
      have "b # x # xs = [] @ b # (x # xs)" by simp
      moreover have "\<forall>m\<in>set (x # xs). key m \<le> key b" using False hi post eq by auto
      ultimately show ?thesis unfolding r eq
        by (intro exI [of _ "[]"] exI [of _ "x # xs"]) simp
    next
      case (Cons b' pre')
      have "b # xs = b' # (pre' @ max_from key b xs # post)"
        using s unfolding Cons by (simp only: append_Cons)
      then have c: "b = b' \<and> xs = pre' @ max_from key b xs # post"
        by (rule list.inject [THEN iffD1])
      have b': "b' = b" using c by (rule conjunct1 [THEN sym])
      have xs: "xs = pre' @ max_from key b xs # post" using c by (rule conjunct2)
      have kb: "key b < key (max_from key b xs)" using lo Cons b' by simp
      have "b # x # xs = (b # x # pre') @ max_from key b xs # post" using xs by simp
      moreover have "\<forall>m\<in>set (b # x # pre'). key m < key (max_from key b xs)"
        using kb False lo Cons by auto
      ultimately show ?thesis unfolding r using hi
        by (intro exI [of _ "b # x # pre'"] exI [of _ post]) simp
    qed
  qed
qed

lemma get_image_resolution_readable:
  "image_open env p = Some img \<Longrightarrow>
   get_image_resolution env p = fst (image_size env img) * snd (image_size env img)"
  by (simp add: get_image_resolution_def split: prod.splits)

text \<open>
  C7.  For a directory of N readable images with identical pixel content (hence identical
  hashes), deduplication yields exactly one group, which holds all N images; one
  representative is selected, and the reported \<open>total_duplicates\<close>, computed as the number
  of images minus the number of representatives, is N - 1.  The directory holds at least one
  image, and the threshold is a Hamming distance and so not negative.
\<close>

theorem identical_images_one_group:
  assumes "distinct paths"
    and "paths \<noteq> []"
    and "\<forall>p\<in>set paths. py_lower (path_suffix p) \<in> valid_extensions \<and>
           calculate_dhash env p 8 = Some hv"
    and "hv \<noteq> []"
    and "0 \<le> threshold self"
  shows "\<exists>reps stats self'.
           deduplicate env choice paths method self = Inr (reps, stats, self') \<and>
           groups self' = [paths] \<and>
           unique_groups stats = 1 \<and>
           total_images stats = length paths \<and>
           card reps = 1 \<and>
           total_duplicates stats = int (total_images stats) - int (card reps) \<and>
           total_duplicates stats = int (length paths) - 1"
proof -
  let ?s2 = "group_similar_images (process_directory env paths self)"
  let ?table = "map (\<lambda>p. (p, hv)) paths"
  have "\<forall>p\<in>set paths. py_lower (path_suffix p) \<in> valid_extensions \<and>
           calculate_dhash env p 8 = Some ((\<lambda>_. hv) p) \<and> (\<lambda>_. hv) p \<noteq> []"
    using assms(3,4) by simp
  then have table: "concat (map (hash_one env []) paths) = ?table"
    by (rule hashed_readable)
  have "seed_groups (threshold self) ?table = [map fst ?table]"
    using assms(5) by (rule seed_groups_same) (use assms(2) in auto)
  then have gs: "groups ?s2 = [paths]"
    using assms(5) by (simp add: groups_of_directory [OF assms(1)] table comp_def)
  have ih: "image_hashes ?s2 = ?table"
    using image_hashes_process_directory [OF assms(1), of env self]
    by (simp add: group_similar_images_def table)
  from select_one_ok [OF assms(2)] obtain r
    where r: "select_one env choice method paths = Inr r" ..
  have R: "select_loop env choice method (groups ?s2) {} = Inr {r}"
    by (simp add: gs r)
  show ?thesis
    by (simp add: deduplicate_unfold [OF R] gs ih get_group_statistics_def)
qed

theorem identical_images_one_group_witness:
  "\<exists>reps stats self'.
     deduplicate example_imaging hd [frame_a, frame_a2] ''highest_res'' (init_deduplicator 10)
       = Inr (reps, stats, self') \<and>
     groups self' = [[frame_a, frame_a2]] \<and> total_duplicates stats = 1"
proof -
  have d: "distinct [frame_a, frame_a2]" by simp
  have n: "[frame_a, frame_a2] \<noteq> []" by simp
  have r: "\<forall>p\<in>set [frame_a, frame_a2].
             py_lower (path_suffix p) \<in> valid_extensions \<and>
             calculate_dhash example_imaging p 8 = Some (replicate 64 CHR ''0'')"
    by code_simp
  have h: "replicate 64 CHR ''0'' \<noteq> []" by code_simp
  have t: "0 \<le> threshold (init_deduplicator 10)" by (simp add: init_deduplicator_def)
  from identical_images_one_group [OF d n r h t, of hd "''highest_res''"]
  show ?thesis by auto
qed

text \<open>
  Outside that domain, at a negative value of \<open>threshold\<close>, no group is stored and every
  image is counted as a duplicate.
\<close>

lemma negative_threshold_identical_images:
  "calculate_dhash example_imaging frame_a 8 = calculate_dhash example_imaging frame_a2 8 \<and>
   deduplicate example_imaging hd [frame_a, frame_a2] ''first'' (init_deduplicator (-1)) =
     Inr ({}, \<lparr>total_images = 2, unique_groups = 0, total_duplicates = 2, group_sizes = [],
                largest_group_size = 0, average_group_size = 0, size_distribution = []\<rparr>,
          \<lparr>threshold = -1,
            image_hashes = [(frame_a, replicate 64 CHR ''0''), (frame_a2, replicate 64 CHR ''0'')],
            groups = [], representatives = {}\<rparr>)"
  by code_simp

subsection \<open>Running the grouping again on the representatives\<close>

lemma hashed_member:
  "x \<in> set (concat (map (hash_one env []) paths)) \<Longrightarrow> hash_one env [] (fst x) = [x]"
proof -
  assume "x \<in> set (concat (map (hash_one env []) paths))"
  then obtain p where x: "x \<in> set (hash_one env [] p)" by auto
  from hash_one_shape [of env p] x obtain v where v: "hash_one env [] p = [(p, v)]" by auto
  with x have "x = (p, v)" by simp
  with v show ?thesis by simp
qed

lemma hashed_keys:
  "\<forall>p\<in>set ps. hash_one env [] p \<noteq> [] \<Longrightarrow> map fst (concat (map (hash_one env []) ps)) = ps"
proof (induction ps)
  case Nil
  then show ?case by simp
next
  case (Cons p ps)
  then have ne: "hash_one env [] p \<noteq> []" by simp
  with hash_one_shape [of env p] obtain v where "hash_one env [] p = [(p, v)]" by auto
  with Cons show ?case by simp
qed

lemma rerun_table:
  assumes sub: "set S \<subseteq> set (concat (map (hash_one env []) paths))"
    and p2: "set paths2 = fst ` set S"
  shows "set (concat (map (hash_one env []) paths2)) = set S"
    and "map fst (concat (map (hash_one env []) paths2)) = paths2"
proof -
  have one: "\<And>x. x \<in> set S \<Longrightarrow> hash_one env [] (fst x) = [x]"
    using sub hashed_member by blast
  show "set (concat (map (hash_one env []) paths2)) = set S"
  proof
    show "set (concat (map (hash_one env []) paths2)) \<subseteq> set S"
    proof
      fix x assume x: "x \<in> set (concat (map (hash_one env []) paths2))"
      then have "fst x \<in> set paths2" using keys_hashed_subset [of env paths2] by auto
      then obtain y where y: "y \<in> set S" "fst y = fst x" using p2 by auto
      from one [OF y(1)] y(2) hashed_member [OF x] have "y = x" by simp
      with y(1) show "x \<in> set S" by simp
    qed
    show "set S \<subseteq> set (concat (map (hash_one env []) paths2))"
    proof
      fix y assume y: "y \<in> set S"
      then have "fst y \<in> set paths2" using p2 by auto
      moreover have "y \<in> set (hash_one env [] (fst y))" using one [OF y] by simp
      ultimately show "y \<in> set (concat (map (hash_one env []) paths2))" by auto
    qed
  qed
  have "\<forall>p\<in>set paths2. hash_one env [] p \<noteq> []"
  proof
    fix p assume "p \<in> set paths2"
    then obtain y where y: "y \<in> set S" "fst y = p" using p2 by auto
    from one [OF y(1)] y(2) show "hash_one env [] p \<noteq> []" by auto
  qed
  then show "map fst (concat (map (hash_one env []) paths2)) = paths2" by (rule hashed_keys)
qed

lemma seeds_regroup:
  assumes d: "distinct table2" and s: "set table2 = set (seeds t table)"
  shows "seed_groups t table2 = map (\<lambda>x. [fst x]) table2"
proof (rule seed_groups_far, rule sorted_wrt_of_pairwise [OF d])
  show "\<forall>x\<in>set table2. \<forall>y\<in>set table2. x \<noteq> y \<longrightarrow> \<not> near t (snd x) y"
    using seeds_pairwise_far [of _ t table] s by blast
qed

text \<open>
  The claim as stated fails under the \<open>highest_res\<close> policy: a representative need not be
  the seed of its group, and two representatives can be within the threshold of each other.
  With threshold 1, the first frame seeds a group that takes the second; the second has the
  higher resolution and represents the group; the third frame is at distance 2 from the first
  but at distance 1 from the second, so a second run merges the two representatives.
\<close>

theorem idempotence_highest_res_counterexample:
  "deduplicate example_imaging hd [frame_a, frame_b, frame_c] ''highest_res''
       (init_deduplicator 1) =
     Inr ({frame_b, frame_c},
          \<lparr>total_images = 3, unique_groups = 2, total_duplicates = 1, group_sizes = [2, 1],
             largest_group_size = 2, average_group_size = 3 / 2,
             size_distribution = [(2, 1), (1, 1)]\<rparr>,
          \<lparr>threshold = 1,
            image_hashes = [(frame_a, replicate 64 CHR ''0''),
                            (frame_b, ''1'' @ replicate 63 CHR ''0''),
                            (frame_c, ''11'' @ replicate 62 CHR ''0'')],
            groups = [[frame_a, frame_b], [frame_c]],
            representatives = {frame_b, frame_c}\<rparr>) \<and>
   deduplicate example_imaging hd [frame_b, frame_c] ''highest_res''
       \<lparr>threshold = 1,
         image_hashes = [(frame_a, replicate 64 CHR ''0''),
                         (frame_b, ''1'' @ replicate 63 CHR ''0''),
                         (frame_c, ''11'' @ replicate 62 CHR ''0'')],
         groups = [[frame_a, frame_b], [frame_c]],
         representatives = {frame_b, frame_c}\<rparr> =
     Inr ({frame_b},
          \<lparr>total_images = 2, unique_groups = 1, total_duplicates = 1, group_sizes = [2],
             largest_group_size = 2, average_group_size = 2, size_distribution = [(2, 1)]\<rparr>,
          \<lparr>threshold = 1,
            image_hashes = [(frame_b, ''1'' @ replicate 63 CHR ''0''),
                            (frame_c, ''11'' @ replicate 62 CHR ''0'')],
            groups = [[frame_b, frame_c]],
            representatives = {frame_b}\<rparr>)"
  by code_simp

subsection \<open>The bits of calculate_dhash\<close>

lemma length_diff_row: "length (diff_row row) = length row - 1"
  by (simp add: diff_row_def)

lemma nth_diff_row:
  "c + 1 < length row \<Longrightarrow> diff_row row ! c = (row ! (c + 1) > row ! c)"
  by (simp add: diff_row_def nth_tl nth_butlast)

lemma length_concat_uniform:
  "\<forall>row\<in>set rows. length row = n \<Longrightarrow> length (concat rows) = length rows * n"
  by (induction rows) simp_all

lemma nth_concat_uniform:
  "\<forall>row\<in>set rows. length row = n \<Longrightarrow> r < length rows \<Longrightarrow> c < n \<Longrightarrow>
   concat rows ! (r * n + c) = rows ! r ! c"
proof (induction rows arbitrary: r)
  case Nil
  then show ?case by simp
next
  case (Cons row rows)
  then have len: "length row = n" and rest: "\<forall>row\<in>set rows. length row = n" by simp_all
  show ?case
  proof (cases r)
    case 0
    then show ?thesis using len Cons.prems(3) by (simp add: nth_append)
  next
    case (Suc r')
    then have r': "r' < length rows" using Cons.prems(2) by simp
    have "concat (row # rows) ! (r * n + c) = concat rows ! (r' * n + c)"
      using len by (simp add: Suc nth_append)
    also have "\<dots> = rows ! r' ! c" by (rule Cons.IH [OF rest r' Cons.prems(3)])
    finally show ?thesis by (simp add: Suc)
  qed
qed

text \<open>
  C4, amended.  For every readable pixel buffer, the hasher converts it to single-channel
  intensity, resizes it to a grid of \<open>hash_size + 1\<close> columns by \<open>hash_size\<close> rows, and for
  each row emits one bit per pair of horizontally adjacent pixels, row by row: the bit is 1 if
  the right neighbour is strictly greater than the pixel, else 0.  The bit string has length
  exactly \<open>hash_size * hash_size\<close>, which is 64 at the default resolution of 8.
\<close>

theorem calculate_dhash_bits:
  assumes "image_open env image_path = Some img"
    and "convert_L_resize env img (hash_size + 1) hash_size = Some pixels"
    and "length pixels = hash_size"
    and "\<forall>row\<in>set pixels. length row = hash_size + 1"
  shows "\<exists>bits. calculate_dhash env image_path hash_size = Some bits \<and>
           length bits = hash_size * hash_size \<and>
           (\<forall>r<hash_size. \<forall>c<hash_size.
              bits ! (r * hash_size + c) =
                (if pixels ! r ! (c + 1) > pixels ! r ! c then CHR ''1'' else CHR ''0''))"
proof -
  let ?rows = "map diff_row pixels"
  let ?bits = "map bit_char (concat ?rows)"
  have res: "calculate_dhash env image_path hash_size = Some ?bits"
    using assms(1,2) by (simp add: calculate_dhash_def)
  have uni: "\<forall>row\<in>set ?rows. length row = hash_size"
    using assms(4) by (simp add: length_diff_row)
  have len: "length (concat ?rows) = hash_size * hash_size"
    using length_concat_uniform [OF uni] assms(3) by simp
  have bit: "?bits ! (r * hash_size + c) =
      (if pixels ! r ! (c + 1) > pixels ! r ! c then CHR ''1'' else CHR ''0'')"
    if r: "r < hash_size" and c: "c < hash_size" for r c
  proof -
    have r': "r < length ?rows" using r assms(3) by simp
    have row: "length (pixels ! r) = hash_size + 1" using assms(3,4) r by simp
    have "r * hash_size + c < r * hash_size + hash_size" using c by simp
    also have "\<dots> = Suc r * hash_size" by simp
    also have "\<dots> \<le> hash_size * hash_size" using r by (simp add: Suc_leI mult_le_mono1 del: mult_Suc)
    finally have idx: "r * hash_size + c < length (concat ?rows)" using len by simp
    have "?bits ! (r * hash_size + c) = bit_char (concat ?rows ! (r * hash_size + c))"
      using idx by simp
    also have "concat ?rows ! (r * hash_size + c) = ?rows ! r ! c"
      by (rule nth_concat_uniform [OF uni r' c])
    also have "?rows ! r ! c = (pixels ! r ! (c + 1) > pixels ! r ! c)"
      using r assms(3) row c by (simp add: nth_diff_row)
    finally have "?bits ! (r * hash_size + c) = bit_char (pixels ! r ! (c + 1) > pixels ! r ! c)" .
    then show ?thesis by (simp only: bit_char_def)
  qed
  show ?thesis
    by (intro exI [of _ ?bits]) (simp add: res len bit)
qed

theorem calculate_dhash_bits_witness:
  "\<exists>bits. calculate_dhash example_imaging frame_c 8 = Some bits \<and> length bits = 64 \<and>
     bits ! 0 = CHR ''1'' \<and> bits ! 1 = CHR ''1'' \<and> bits ! 2 = CHR ''0''"
proof -
  let ?px = "[[0, 1, 2, 0, 0, 0, 0, 0, 0], [0, 0, 0, 0, 0, 0, 0, 0, 0],
              [0, 0, 0, 0, 0, 0, 0, 0, 0], [0, 0, 0, 0, 0, 0, 0, 0, 0],
              [0, 0, 0, 0, 0, 0, 0, 0, 0], [0, 0, 0, 0, 0, 0, 0, 0, 0],
              [0, 0, 0, 0, 0, 0, 0, 0, 0], [0, 0, 0, 0, 0, 0, 0, 0, 0]] :: uint8 list list"
  have a: "image_open example_imaging frame_c = Some 2" by code_simp
  have b: "convert_L_resize example_imaging 2 (8 + 1) 8 = Some ?px" by code_simp
  have c: "length ?px = 8" by simp
  have d: "\<forall>row\<in>set ?px. length row = 8 + 1" by simp
  from calculate_dhash_bits [OF a b c d] obtain bits where
    r: "calculate_dhash example_imaging frame_c 8 = Some bits" and l: "length bits = 8 * 8"
    and bs: "\<forall>r<8. \<forall>c<8. bits ! (r * 8 + c) =
                (if ?px ! r ! (c + 1) > ?px ! r ! c then CHR ''1'' else CHR ''0'')"
    by blast
  have "bits ! 0 = CHR ''1''" using bs [rule_format, of 0 0] by simp
  moreover have "bits ! 1 = CHR ''1''" using bs [rule_format, of 0 1] by simp
  moreover have "bits ! 2 = CHR ''0''" using bs [rule_format, of 0 2] by (simp add: numeral_2_eq_2)
  ultimately show ?thesis using r l by simp
qed

text \<open>
  The claim as stated gives the opposite bits: in the second frame the pixel in column 1 is
  strictly greater than its right neighbour, which would set bit 1 and clear bit 0, while
  the code sets bit 0 (column 1 is greater than column 0) and clears bit 1.
\<close>

theorem calculate_dhash_direction_counterexample:
  "image_open example_imaging frame_b = Some 1 \<and>
   convert_L_resize example_imaging 1 9 8 =
     Some ([0, 1, 0, 0, 0, 0, 0, 0, 0] # replicate 7 (replicate 9 0)) \<and>
   calculate_dhash example_imaging frame_b 8 = Some (''10'' @ replicate 62 CHR ''0'') \<and>
   spec_dhash ([0, 1, 0, 0, 0, 0, 0, 0, 0] # replicate 7 (replicate 9 0)) =
     ''01'' @ replicate 62 CHR ''0''"
  by code_simp

lemma queue_inv_start: "queue_inv (start_capture folder)"
  by (simp add: queue_inv_def start_capture_def)

lemma queue_inv_capture: "queue_inv s \<Longrightarrow> queue_inv (capture_screen_step g s)"
  by (cases "capture_thread s"; cases g)
     (auto simp: queue_inv_def capture_screen_step_def put_def full_def)

lemma queue_inv_save: "queue_inv s \<Longrightarrow> queue_inv (save_frames_step timeout write_ok s)"
  by (cases "save_thread s"; cases "frame_queue s"; cases "capture_thread s")
     (auto simp: queue_inv_def save_frames_step_def raise_in_save_frames_def
           split: sum.splits)

lemma queue_inv_stop: "queue_inv s \<Longrightarrow> queue_inv (stop_capture_step s)"
  by (cases "main_thread s"; cases "frame_queue s"; cases "capture_thread s")
     (auto simp: queue_inv_def stop_capture_step_def)

lemma queue_inv_step: "queue_inv s \<Longrightarrow> queue_inv (step s e)"
  by (cases e) (simp_all add: step_def queue_inv_capture queue_inv_save queue_inv_stop)

lemma queue_inv_run: "queue_inv s \<Longrightarrow> queue_inv (run es s)"
  unfolding run_def by (induction es arbitrary: s) (simp_all add: queue_inv_step)

text \<open>
  C5.  In every interleaving of the capture thread, the save thread and \<open>stop_capture\<close>, the
  queue never holds more items than its capacity of 30, and the capture thread is never blocked
  in \<open>put\<close>.  Whenever the capture thread grabs a frame while the queue is full, the frame is
  dropped: the step changes nothing, and the thread is back at the head of its loop.
\<close>

theorem queue_bounded_drop_when_full:
  assumes "s = run es (start_capture folder)"
  shows "length (frame_queue s) \<le> maxsize s \<and> maxsize s = 30 \<and>
         (\<forall>frame ts. capture_thread s \<noteq> PBlocked frame ts) \<and>
         (capture_thread s = PLoop \<and> \<not> stop_event s \<and> full s \<longrightarrow>
            step s (Capture (Grabbed frame rel_timestamp)) = s \<and>
            capture_thread (step s (Capture (Grabbed frame rel_timestamp))) = PLoop)"
proof -
  have inv: "queue_inv s"
    unfolding assms by (rule queue_inv_run [OF queue_inv_start])
  then have a: "length (frame_queue s) \<le> maxsize s" and b: "maxsize s = 30"
    by (simp_all add: queue_inv_def)
  have c: "\<forall>frame ts. capture_thread s \<noteq> PBlocked frame ts"
    using inv by (auto simp: queue_inv_def)
  have d: "capture_thread s = PLoop \<and> \<not> stop_event s \<and> full s \<longrightarrow>
            step s (Capture (Grabbed frame rel_timestamp)) = s \<and>
            capture_thread (step s (Capture (Grabbed frame rel_timestamp))) = PLoop"
    by (simp add: step_def capture_screen_step_def)
  from a b c d show ?thesis by blast
qed

theorem queue_bounded_drop_when_full_witness:
  "length (frame_queue (run (concat (replicate 30 [Capture (Grabbed (0::nat) 0), Capture NotDue]))
      (start_capture ''temp_photo''))) = 30 \<and>
   full (run (concat (replicate 30 [Capture (Grabbed (0::nat) 0), Capture NotDue]))
      (start_capture ''temp_photo'')) \<and>
   step (run (concat (replicate 30 [Capture (Grabbed (0::nat) 0), Capture NotDue]))
      (start_capture ''temp_photo'')) (Capture (Grabbed 1 2))
   = run (concat (replicate 30 [Capture (Grabbed (0::nat) 0), Capture NotDue]))
      (start_capture ''temp_photo'')"
proof -
  let ?s = "run (concat (replicate 30 [Capture (Grabbed (0::nat) 0), Capture NotDue]))
      (start_capture ''temp_photo'')"
  have len: "length (frame_queue ?s) = 30" by code_simp
  have f: "full ?s" by code_simp
  have p: "capture_thread ?s = PLoop" by code_simp
  have n: "\<not> stop_event ?s" by code_simp
  from queue_bounded_drop_when_full [OF refl, of "concat (replicate 30 [Capture (Grabbed (0::nat) 0), Capture NotDue])" "''temp_photo''" 1 2]
  have "step ?s (Capture (Grabbed 1 2)) = ?s" using f p n by blast
  with len f show ?thesis by blast
qed

section \<open>The Frame Writer\<close>

lemma save_frames_except_always_raises: "save_frames_except e = Inl AttributeError"
  by (simp add: save_frames_except_def Queue_attributes_def)

lemma save_frames_timeout:
  "save_thread s = WGet \<Longrightarrow> frame_queue s = [] \<Longrightarrow>
   save_frames_step True write_ok s = s\<lparr>save_thread := WCrashed AttributeError\<rparr>"
  by (simp add: save_frames_step_def raise_in_save_frames_def save_frames_except_always_raises)

text \<open>
  C2.  The claim fails on the code.  With the queue empty and no cancellation signalled, the
  save thread enters \<^verbatim>\<open>get(timeout=1)\<close>; when the second has passed \<open>get\<close> raises
  \<open>queue.Empty\<close>, the clause \<^verbatim>\<open>except Queue.Empty\<close> raises AttributeError, and the thread
  ends: the timeout has stopped the loop while \<open>stop_event\<close> is not set.
\<close>

theorem save_frames_timeout_ends_loop:
  "run [Save False True, Save True True] (start_capture ''temp_photo'' :: nat screen_capture) =
     \<lparr>output_folder = ''temp_photo'', stop_event = False, frame_queue = [], maxsize = 30,
      capture_thread = PLoop, save_thread = WCrashed AttributeError, main_thread = MRunning,
      written = []\<rparr>"
  by code_simp

text \<open>
  A frame enqueued before cancellation need not be written either: \<open>stop_capture\<close> takes the
  remaining frames out of the queue itself and drops them.  Here frame 7 is enqueued, then
  cancellation is signalled, the capture thread ends, \<open>stop_capture\<close> empties the queue, and
  the save thread finds \<open>stop_event\<close> set and the queue empty and returns with nothing
  written.
\<close>

lemma frame_enqueued_before_stop:
  "frame_queue (run [Capture (Grabbed 7 (1 / 20)), Capture NotDue]
     (start_capture ''temp_photo'' :: nat screen_capture)) = [(7, 1 / 20)]"
  by code_simp

lemma stop_capture_discards_frame:
  "run [Capture (Grabbed 7 (1 / 20)), Capture NotDue, Stop, Capture NotDue, Stop, Stop, Stop,
        Stop, Stop, Save False True, Stop]
     (start_capture ''temp_photo'' :: nat screen_capture) =
     \<lparr>output_folder = ''temp_photo'', stop_event = True, frame_queue = [], maxsize = 30,
      capture_thread = PDone, save_thread = WDone, main_thread = MStopped, written = []\<rparr>"
  by code_simp

text \<open>
  What the loop condition does give: the save thread returns from \<open>save_frames\<close> (as opposed
  to being ended by an exception) only in a step that finds \<open>stop_event\<close> set and the queue
  empty.
\<close>

lemma save_frames_returns_only_drained:
  "save_thread s \<noteq> WDone \<Longrightarrow> save_thread (save_frames_step timeout write_ok s) = WDone \<Longrightarrow>
   stop_event s \<and> frame_queue s = []"
  by (cases "save_thread s"; cases "frame_queue s")
     (auto simp: save_frames_step_def raise_in_save_frames_def save_frames_except_always_raises
           empty_def split: if_splits)

section \<open>The timestamp through the file name\<close>

lemma format_example: "format_3f (2469 / 200) = ''12.345''"
proof -
  have "round_half_even (\<bar>2469 / 200\<bar> * 1000) = 12345"
    by (simp add: round_half_even_def)
  then show ?thesis
    unfolding format_3f_def Let_def by (simp add: digit_char_def)
qed

text \<open>
  C3.  The claim fails on the code.  The Frame Writer embeds the timestamp with three
  decimals, but the parser of the storage hand-off cuts the name at its first dot and so
  recovers the whole seconds only: the timestamp 12.345 (the fraction 2469/200) is written
  as \<open>frame_12.345.jpg\<close> and read back as 12.
\<close>

theorem timestamp_round_trip_loses_milliseconds:
  "frame_filename (2469 / 200) = ''frame_12.345.jpg'' \<and>
   path_join ''temp_photo'' (frame_filename (2469 / 200)) = ''temp_photo/frame_12.345.jpg'' \<and>
   timestamp_of_path (path_join ''temp_photo'' (frame_filename (2469 / 200))) = Inr 12"
proof -
  have n: "frame_filename (2469 / 200) = ''frame_12.345.jpg''"
    by (simp add: frame_filename_def format_example)
  have p: "path_join ''temp_photo'' ''frame_12.345.jpg'' = ''temp_photo/frame_12.345.jpg''"
    by (simp add: path_join_def)
  have t: "timestamp_of_path ''temp_photo/frame_12.345.jpg'' = Inr 12"
    by (simp add: timestamp_of_path_def py_index_def py_float_def is_digit_def nat_of_digits_def
        digit_value_def)
  show ?thesis by (simp only: n p t)
qed

section \<open>What the hand-off reads back from every frame name\<close>

declare str_nat.simps [simp del]

lemma split_on_no_sep: "c \<notin> set xs \<Longrightarrow> split_on c xs = [xs]"
  by (induction xs) auto

lemma split_on_nonempty: "split_on c xs \<noteq> []"
  by (induction xs) (auto split: list.splits)

lemma split_on_first: "c \<notin> set xs \<Longrightarrow> split_on c (xs @ c # ys) = xs # split_on c ys"
proof (induction xs)
  case Nil
  then show ?case by simp
next
  case (Cons x xs)
  then have "x \<noteq> c" and "c \<notin> set xs" by auto
  with Cons.IH show ?case by simp
qed

lemma last_split_on_append:
  "last (split_on c (xs @ c # ys)) = last (split_on c ys)"
proof (induction xs)
  case Nil
  then show ?case by (simp add: split_on_nonempty)
next
  case (Cons x xs)
  obtain w ws where s: "split_on c (xs @ c # ys) = w # ws"
    using split_on_nonempty [of c "xs @ c # ys"] by (cases "split_on c (xs @ c # ys)") auto
  have ws: "ws \<noteq> []"
  proof
    assume "ws = []"
    with s have "length (split_on c (xs @ c # ys)) = 1" by simp
    moreover have "length (split_on c zs) = Suc (length (filter (\<lambda>z. z = c) zs))" for zs
      by (induction zs) (auto split: list.splits)
    ultimately show False by simp
  qed
  show ?case
  proof (cases "x = c")
    case True
    then show ?thesis using Cons s by (simp add: split_on_nonempty)
  next
    case False
    then have "split_on c ((x # xs) @ c # ys) = (x # w) # ws" using s by simp
    then show ?thesis using Cons s ws by simp
  qed
qed

lemma digit_nth: "k < 10 \<Longrightarrow> ''0123456789'' ! k \<in> set ''0123456789''"
  by (rule nth_mem) simp

lemma is_digit_digit_char: "is_digit (digit_char d)"
  unfolding is_digit_def digit_char_def by (rule digit_nth) simp

lemma digit_value_nth: "k < 10 \<Longrightarrow> digit_value (''0123456789'' ! k) = k"
proof -
  assume "k < 10"
  then have "k = 0 \<or> k = 1 \<or> k = 2 \<or> k = 3 \<or> k = 4 \<or> k = 5 \<or> k = 6 \<or> k = 7
    \<or> k = 8 \<or> k = 9" by presburger
  then show ?thesis by (elim disjE) (simp_all add: digit_value_def)
qed

lemma digit_value_digit_char: "digit_value (digit_char d) = d mod 10"
  unfolding digit_char_def by (rule digit_value_nth) simp

lemma is_digit_plain:
  "is_digit c \<Longrightarrow> c \<noteq> CHR ''/'' \<and> c \<noteq> CHR ''_'' \<and> c \<noteq> CHR ''.'' \<and> c \<noteq> CHR ''-'' \<and> c \<noteq> CHR ''+''"
  by (auto simp: is_digit_def)

lemma str_nat_digits: "str_nat n \<noteq> [] \<and> list_all is_digit (str_nat n)"
proof (induction n rule: str_nat.induct)
  case (1 n)
  show ?case
  proof (cases "n < 10")
    case True
    then have "str_nat n = [digit_char n]" by (subst str_nat.simps) simp
    then show ?thesis by (simp add: is_digit_digit_char)
  next
    case False
    then have "str_nat n = str_nat (n div 10) @ [digit_char (n mod 10)]"
      by (subst str_nat.simps) simp
    with 1 [OF False] show ?thesis by (simp add: is_digit_digit_char)
  qed
qed

lemma nat_of_digits_snoc:
  "nat_of_digits (ds @ [c]) = 10 * nat_of_digits ds + digit_value c"
  by (simp add: nat_of_digits_def)

lemma nat_of_digits_str_nat: "nat_of_digits (str_nat n) = n"
proof (induction n rule: str_nat.induct)
  case (1 n)
  show ?case
  proof (cases "n < 10")
    case True
    then have "str_nat n = [digit_char n]" by (subst str_nat.simps) simp
    then show ?thesis using True by (simp add: nat_of_digits_def digit_value_digit_char)
  next
    case False
    then have "str_nat n = str_nat (n div 10) @ [digit_char (n mod 10)]"
      by (subst str_nat.simps) simp
    then show ?thesis
      using 1 [OF False] by (simp add: nat_of_digits_snoc digit_value_digit_char)
  qed
qed

lemma py_float_str_nat: "py_float (str_nat n) = Inr (of_nat n)"
proof -
  from str_nat_digits [of n] have ne: "str_nat n \<noteq> []" and ds: "list_all is_digit (str_nat n)"
    by simp_all
  then have "is_digit (hd (str_nat n))" by (cases "str_nat n") simp_all
  then have "hd (str_nat n) \<noteq> CHR ''-''" and "hd (str_nat n) \<noteq> CHR ''+''"
    using is_digit_plain by blast+
  then show ?thesis using ne ds by (simp add: py_float_def nat_of_digits_str_nat)
qed

lemma str_nat_plain:
  "CHR ''/'' \<notin> set (str_nat n) \<and> CHR ''_'' \<notin> set (str_nat n) \<and> CHR ''.'' \<notin> set (str_nat n)"
  using str_nat_digits [of n] is_digit_plain by (auto simp: list_all_iff)

lemma py_index_last: "xs \<noteq> [] \<Longrightarrow> py_index xs (- 1) = Inr (last xs)"
proof -
  assume ne: "xs \<noteq> []"
  then have "nat (int (length xs) + - 1) = length xs - 1" by (cases xs) simp_all
  moreover have "Suc 0 \<le> length xs" using ne by (cases xs) simp_all
  ultimately show ?thesis using ne by (simp add: py_index_def last_conv_nth)
qed

lemma last_split_path_join:
  assumes "CHR ''/'' \<notin> set name"
  shows "last (split_on CHR ''/'' (path_join folder name)) = name"
proof -
  have plain: "last (split_on CHR ''/'' name) = name" using assms by (simp add: split_on_no_sep)
  show ?thesis
  proof (cases "folder = []")
    case True
    then show ?thesis using plain by (simp add: path_join_def)
  next
    case False
    show ?thesis
    proof (cases "last folder = CHR ''/''")
      case True
      with False have "folder = butlast folder @ [CHR ''/'']" by (metis append_butlast_last_id)
      then have "path_join folder name = butlast folder @ CHR ''/'' # name"
        using True False by (simp add: path_join_def)
      then show ?thesis using plain by (simp only: last_split_on_append)
    next
      case False
      with \<open>folder \<noteq> []\<close> have "path_join folder name = folder @ CHR ''/'' # name"
        by (simp add: path_join_def)
      then show ?thesis using plain by (simp only: last_split_on_append)
    qed
  qed
qed

text \<open>
  For every non-negative timestamp, what the hand-off reads back from the path of the frame
  is the whole part of the timestamp as it was written: the milliseconds are lost.
\<close>

lemma timestamp_of_path_whole_seconds:
  assumes "0 \<le> t"
  shows "timestamp_of_path (path_join folder (frame_filename t)) =
         Inr (of_nat (round_half_even (t * 1000) div 1000))"
proof -
  let ?n = "round_half_even (t * 1000)"
  let ?S = "str_nat (?n div 1000)"
  let ?D = "[digit_char (?n div 100 mod 10), digit_char (?n div 10 mod 10), digit_char (?n mod 10)]"
  let ?rest = "?S @ CHR ''.'' # (?D @ ''.jpg'')"
  let ?name = "''frame'' @ CHR ''_'' # ?rest"
  have name: "frame_filename t = ?name"
    using assms by (simp add: frame_filename_def format_3f_def Let_def)
  have D_plain: "\<forall>c\<in>set ?D. c \<noteq> CHR ''/'' \<and> c \<noteq> CHR ''_''"
    using is_digit_plain is_digit_digit_char by auto
  have slash: "CHR ''/'' \<notin> set ?name"
    using str_nat_plain [of "?n div 1000"] D_plain by auto
  have under: "CHR ''_'' \<notin> set ?rest"
    using str_nat_plain [of "?n div 1000"] D_plain by auto
  have dot: "CHR ''.'' \<notin> set ?S"
    using str_nat_plain [of "?n div 1000"] by simp
  have a: "py_index (split_on CHR ''/'' (path_join folder ?name)) (- 1) = Inr ?name"
    using last_split_path_join [OF slash, of folder]
    by (simp only: py_index_last [OF split_on_nonempty])
  have "split_on CHR ''_'' ?name = ''frame'' # split_on CHR ''_'' ?rest"
    by (rule split_on_first) simp
  also have "split_on CHR ''_'' ?rest = [?rest]"
    using under by (rule split_on_no_sep)
  finally have b: "py_index (split_on CHR ''_'' ?name) 1 = Inr ?rest"
    by (simp add: py_index_def)
  have "split_on CHR ''.'' ?rest = ?S # split_on CHR ''.'' (?D @ ''.jpg'')"
    using dot by (rule split_on_first)
  then have c: "py_index (split_on CHR ''.'' ?rest) 0 = Inr ?S"
    by (simp add: py_index_def)
  show ?thesis
    unfolding name timestamp_of_path_def
    by (simp only: a b c sum.case py_float_str_nat)
qed

subsection \<open>The representatives under highest_res\<close>

lemma select_one_highest_res:
  assumes "grp \<noteq> []"
  shows "\<exists>r. select_one env choice ''highest_res'' grp = Inr r \<and>
           is_first_greatest (get_image_resolution env) grp r"
proof -
  from assms obtain b xs where grp: "grp = b # xs" by (cases grp) auto
  have "select_one env choice ''highest_res'' grp = Inr (max_from (get_image_resolution env) b xs)"
    by (simp add: select_one_def py_max_def grp)
  moreover have "is_first_greatest (get_image_resolution env) grp
       (max_from (get_image_resolution env) b xs)"
    unfolding is_first_greatest_def grp by (rule max_from_split)
  ultimately show ?thesis by blast
qed

lemma select_loop_highest_res:
  "[] \<notin> set gs \<Longrightarrow>
   \<exists>R. select_loop env choice ''highest_res'' gs reps = Inr R \<and> reps \<subseteq> R \<and>
     (\<forall>grp\<in>set gs. \<exists>r\<in>R. is_first_greatest (get_image_resolution env) grp r) \<and>
     (\<forall>r\<in>R. r \<in> reps \<or> (\<exists>grp\<in>set gs. is_first_greatest (get_image_resolution env) grp r))"
proof (induction gs arbitrary: reps)
  case Nil
  then show ?case by simp
next
  case (Cons g gs)
  then have g: "g \<noteq> []" and rest: "[] \<notin> set gs" by auto
  from select_one_highest_res [OF g, of env choice] obtain r where
    r: "select_one env choice ''highest_res'' g = Inr r"
    and fg: "is_first_greatest (get_image_resolution env) g r" by blast
  from Cons.IH [OF rest, of "insert r reps"] obtain R where
    R: "select_loop env choice ''highest_res'' gs (insert r reps) = Inr R"
    and sub: "insert r reps \<subseteq> R"
    and all: "\<forall>grp\<in>set gs. \<exists>r\<in>R. is_first_greatest (get_image_resolution env) grp r"
    and only: "\<forall>x\<in>R. x \<in> insert r reps \<or>
                 (\<exists>grp\<in>set gs. is_first_greatest (get_image_resolution env) grp x)"
    by blast
  have 1: "select_loop env choice ''highest_res'' (g # gs) reps = Inr R" by (simp add: r R)
  have 2: "reps \<subseteq> R" using sub by blast
  have 3: "\<forall>grp\<in>set (g # gs). \<exists>r\<in>R. is_first_greatest (get_image_resolution env) grp r"
    using all fg sub by auto
  have 4: "\<forall>x\<in>R. x \<in> reps \<or>
             (\<exists>grp\<in>set (g # gs). is_first_greatest (get_image_resolution env) grp x)"
    using only fg by auto
  from 1 2 3 4 show ?case by blast
qed

lemma groups_of_directory_nonempty:
  "distinct paths \<Longrightarrow> [] \<notin> set (groups (group_similar_images (process_directory env paths self)))"
  by (simp add: groups_of_directory seed_groups_nonempty)

text \<open>
  C9.  Under the \<open>highest_res\<close> policy, \<open>select_representatives\<close> selects for every
  group (groups are never empty) the member with the greatest pixel count (width times height,
  as \<open>get_image_resolution\<close> computes it), ties broken by input order: the representative of
  a group is the first of its members with the greatest count, every representative is such a
  member of some group, and the same holds of the representatives that \<open>deduplicate\<close> returns.
  \<open>is_first_greatest key grp r\<close> says that every member of \<open>grp\<close> before \<open>r\<close> has a
  strictly smaller key and every member after it a key that is not greater.
\<close>

theorem highest_res_first_greatest:
  assumes "[] \<notin> set (groups self)" and "distinct paths"
  shows "(\<exists>self'. select_representatives env choice ''highest_res'' self = Inr self' \<and>
            groups self' = groups self \<and>
            (\<forall>grp\<in>set (groups self).
               \<exists>r\<in>representatives self'. is_first_greatest (get_image_resolution env) grp r) \<and>
            (\<forall>r\<in>representatives self'.
               \<exists>grp\<in>set (groups self). is_first_greatest (get_image_resolution env) grp r)) \<and>
         (\<exists>reps stats self'.
            deduplicate env choice paths ''highest_res'' self0 = Inr (reps, stats, self') \<and>
            representatives self' = reps \<and>
            (\<forall>grp\<in>set (groups self').
               \<exists>r\<in>reps. is_first_greatest (get_image_resolution env) grp r) \<and>
            (\<forall>r\<in>reps.
               \<exists>grp\<in>set (groups self'). is_first_greatest (get_image_resolution env) grp r))"
proof
  from select_loop_highest_res [OF assms(1), of env choice "{}"] obtain R where
    R: "select_loop env choice ''highest_res'' (groups self) {} = Inr R"
    and all: "\<forall>grp\<in>set (groups self). \<exists>r\<in>R. is_first_greatest (get_image_resolution env) grp r"
    and only: "\<forall>r\<in>R. r \<in> {} \<or>
                 (\<exists>grp\<in>set (groups self). is_first_greatest (get_image_resolution env) grp r)"
    by blast
  have "select_representatives env choice ''highest_res'' self = Inr (self\<lparr>representatives := R\<rparr>)"
    by (simp add: select_representatives_def R)
  with all only
  show "\<exists>self'. select_representatives env choice ''highest_res'' self = Inr self' \<and>
            groups self' = groups self \<and>
            (\<forall>grp\<in>set (groups self).
               \<exists>r\<in>representatives self'. is_first_greatest (get_image_resolution env) grp r) \<and>
            (\<forall>r\<in>representatives self'.
               \<exists>grp\<in>set (groups self). is_first_greatest (get_image_resolution env) grp r)"
    by (intro exI [of _ "self\<lparr>representatives := R\<rparr>"]) simp
next
  let ?s2 = "group_similar_images (process_directory env paths self0)"
  have ne: "[] \<notin> set (groups ?s2)" using assms(2) by (rule groups_of_directory_nonempty)
  from select_loop_highest_res [OF ne, of env choice "{}"] obtain R where
    R: "select_loop env choice ''highest_res'' (groups ?s2) {} = Inr R"
    and all: "\<forall>grp\<in>set (groups ?s2). \<exists>r\<in>R. is_first_greatest (get_image_resolution env) grp r"
    and only: "\<forall>r\<in>R. r \<in> {} \<or>
                 (\<exists>grp\<in>set (groups ?s2). is_first_greatest (get_image_resolution env) grp r)"
    by blast
  from all only
  show "\<exists>reps stats self'.
            deduplicate env choice paths ''highest_res'' self0 = Inr (reps, stats, self') \<and>
            representatives self' = reps \<and>
            (\<forall>grp\<in>set (groups self').
               \<exists>r\<in>reps. is_first_greatest (get_image_resolution env) grp r) \<and>
            (\<forall>r\<in>reps.
               \<exists>grp\<in>set (groups self'). is_first_greatest (get_image_resolution env) grp r)"
    by (intro exI [of _ R] exI [of _ "get_group_statistics (?s2\<lparr>representatives := R\<rparr>)"]
          exI [of _ "?s2\<lparr>representatives := R\<rparr>"])
       (simp add: deduplicate_unfold [OF R])
qed

text \<open>
  Three frames of 100, 400 and 250 pixels in one group: the frame of 400 pixels represents it.
  Three frames of 100 pixels each: the first represents them.
\<close>

theorem highest_res_first_greatest_witness:
  "map (get_image_resolution example_imaging) [frame_a, frame_b, frame_c] = [100, 400, 250] \<and>
   select_representatives example_imaging hd ''highest_res''
     \<lparr>threshold = 10, image_hashes = [], groups = [[frame_a, frame_b, frame_c]],
      representatives = {}\<rparr>
   = Inr \<lparr>threshold = 10, image_hashes = [], groups = [[frame_a, frame_b, frame_c]],
          representatives = {frame_b}\<rparr> \<and>
   (\<exists>stats self'. deduplicate example_imaging hd [frame_a, frame_a2, frame_d] ''highest_res''
        (init_deduplicator 10) = Inr ({frame_a}, stats, self') \<and>
      groups self' = [[frame_a, frame_a2, frame_d]])"
proof -
  let ?self = "\<lparr>threshold = 10, image_hashes = [], groups = [[frame_a, frame_b, frame_c]],
      representatives = {}\<rparr>"
  have ne: "[] \<notin> set (groups ?self)" by simp
  have d: "distinct [frame_a, frame_a2, frame_d]" by simp
  from highest_res_first_greatest [OF ne d, of example_imaging hd "init_deduplicator 10"]
  have "\<exists>self'. select_representatives example_imaging hd ''highest_res'' ?self = Inr self'"
    by blast
  moreover have "select_representatives example_imaging hd ''highest_res'' ?self
      = Inr \<lparr>threshold = 10, image_hashes = [], groups = [[frame_a, frame_b, frame_c]],
          representatives = {frame_b}\<rparr>"
    by code_simp
  moreover have "map (get_image_resolution example_imaging) [frame_a, frame_b, frame_c]
      = [100, 400, 250]"
    by code_simp
  moreover have "deduplicate example_imaging hd [frame_a, frame_a2, frame_d] ''highest_res''
        (init_deduplicator 10) =
      Inr ({frame_a},
           \<lparr>total_images = 3, unique_groups = 1, total_duplicates = 2, group_sizes = [3],
             largest_group_size = 3, average_group_size = 3, size_distribution = [(3, 1)]\<rparr>,
           \<lparr>threshold = 10,
             image_hashes = [(frame_a, replicate 64 CHR ''0''),
                             (frame_a2, replicate 64 CHR ''0''),
                             (frame_d, ''11111111'' @ replicate 56 CHR ''0'')],
             groups = [[frame_a, frame_a2, frame_d]], representatives = {frame_a}\<rparr>)"
    by code_simp
  ultimately show ?thesis by simp
qed

subsection \<open>Running the grouping again when every representative is a seed\<close>

lemma rerun_on_seeds:
  assumes d1: "distinct paths"
    and s1: "self1 = (group_similar_images (process_directory env paths self))\<lparr>representatives := reps\<rparr>"
    and seedc: "reps = hd ` set (groups self1)"
    and dp2: "distinct paths2"
    and sp2: "set paths2 = reps"
    and ch: "\<forall>p. choice [p] = p"
  shows "\<exists>stats2 self2.
           deduplicate env choice paths2 method self1 = Inr (reps, stats2, self2) \<and>
           groups self2 = map (\<lambda>p. [p]) paths2 \<and>
           unique_groups stats2 = length paths2 \<and>
           total_images stats2 = length paths2 \<and>
           total_duplicates stats2 = 0"
proof -
  let ?t = "threshold self"
  let ?table = "concat (map (hash_one env []) paths)"
  let ?s2 = "group_similar_images (process_directory env paths self)"
  let ?S = "if 0 \<le> ?t then seeds ?t ?table else []"
  have gs1: "groups ?s2 = (if 0 \<le> ?t then seed_groups ?t ?table else [])"
    using d1 by (rule groups_of_directory)
  have gsame: "groups self1 = groups ?s2" and th1: "threshold self1 = ?t"
    unfolding s1 by (simp_all add: group_similar_images_def process_directory_def)
  have "set (map hd (groups ?s2)) = set (map fst ?S)"
  proof (cases "0 \<le> ?t")
    case True
    then show ?thesis by (simp only: gs1 if_True seed_groups_heads)
  next
    case False
    then show ?thesis by (simp only: gs1 if_False list.map)
  qed
  then have "hd ` set (groups ?s2) = fst ` set ?S" by (simp only: set_map)
  then have reps: "reps = fst ` set ?S" using seedc gsame by simp
  have sub: "set ?S \<subseteq> set ?table"
  proof (cases "0 \<le> ?t")
    case True
    then show ?thesis by (simp only: if_True seeds_subset)
  next
    case False
    then show ?thesis by (simp only: if_False list.set empty_subsetI)
  qed
  have p2: "set paths2 = fst ` set ?S" using sp2 reps by simp
  let ?table2 = "concat (map (hash_one env []) paths2)"
  let ?r2 = "group_similar_images (process_directory env paths2 self1)"
  have set2: "set ?table2 = set ?S" using sub p2 by (rule rerun_table(1))
  have keys2: "map fst ?table2 = paths2" using sub p2 by (rule rerun_table(2))
  have d2: "distinct ?table2"
    using dp2 keys2 by (metis distinct_map)
  have len2: "length ?table2 = length paths2" using keys2 by (metis length_map)
  have gs2: "groups ?r2 = map (\<lambda>p. [p]) paths2"
  proof (cases "0 \<le> ?t")
    case True
    then have "set ?table2 = set (seeds ?t ?table)" using set2 by simp
    with d2 have "seed_groups ?t ?table2 = map (\<lambda>x. [fst x]) ?table2" by (rule seeds_regroup)
    also have "\<dots> = map (\<lambda>p. [p]) (map fst ?table2)" by (simp add: comp_def)
    finally have "seed_groups ?t ?table2 = map (\<lambda>p. [p]) paths2" by (simp only: keys2)
    then show ?thesis using True by (simp add: groups_of_directory [OF dp2] th1)
  next
    case False
    then have e: "paths2 = []" using p2 by simp
    have g: "groups ?r2 = []"
      using False by (simp only: groups_of_directory [OF dp2] th1 if_False)
    show ?thesis using e g by simp
  qed
  have ih2: "image_hashes ?r2 = ?table2"
    using image_hashes_process_directory [OF dp2, of env self1]
    by (simp add: group_similar_images_def)
  have "\<forall>p\<in>set paths2. choice [p] = p" using ch by simp
  then have "select_loop env choice method (map (\<lambda>p. [p]) paths2) {} = Inr ({} \<union> set paths2)"
    by (rule select_loop_singletons)
  then have sel2: "select_loop env choice method (groups ?r2) {} = Inr reps"
    by (simp add: gs2 sp2)
  have card2: "card reps = length paths2"
    using dp2 sp2 by (metis distinct_card)
  show ?thesis
    by (simp add: deduplicate_unfold [OF sel2] gs2 ih2 get_group_statistics_def len2 card2)
qed

lemma deduplicate_result:
  "deduplicate env choice paths m self = Inr (reps, stats, self1) \<Longrightarrow>
   self1 = (group_similar_images (process_directory env paths self))\<lparr>representatives := reps\<rparr>"
  by (auto simp: deduplicate_def select_representatives_def split: sum.splits)

lemma deduplicate_select_loop:
  "deduplicate env choice paths m self = Inr (reps, stats, self1) \<Longrightarrow>
   select_loop env choice m (groups (group_similar_images (process_directory env paths self))) {}
     = Inr reps"
  by (auto simp: deduplicate_def select_representatives_def split: sum.splits)

lemma max_from_no_greater: "\<forall>m\<in>set xs. key m \<le> key b \<Longrightarrow> max_from key b xs = b"
  by (induction xs) simp_all

lemma select_one_highest_res_seed:
  "grp \<noteq> [] \<Longrightarrow> \<forall>m\<in>set grp. get_image_resolution env m \<le> get_image_resolution env (hd grp) \<Longrightarrow>
   select_one env choice ''highest_res'' grp = Inr (hd grp)"
  by (cases grp) (simp_all add: select_one_def py_max_def max_from_no_greater)

lemma select_loop_highest_res_seeds:
  "[] \<notin> set gs \<Longrightarrow>
   \<forall>grp\<in>set gs. \<forall>m\<in>set grp. get_image_resolution env m \<le> get_image_resolution env (hd grp) \<Longrightarrow>
   select_loop env choice ''highest_res'' gs reps = Inr (reps \<union> hd ` set gs)"
proof (induction gs arbitrary: reps)
  case Nil
  then show ?case by simp
next
  case (Cons g gs)
  then have g: "g \<noteq> []" and rest: "[] \<notin> set gs" by auto
  have one: "select_one env choice ''highest_res'' g = Inr (hd g)"
    using g Cons.prems(2) by (intro select_one_highest_res_seed) simp_all
  have "\<forall>grp\<in>set gs. \<forall>m\<in>set grp.
          get_image_resolution env m \<le> get_image_resolution env (hd grp)"
    using Cons.prems(2) by simp
  from Cons.IH [OF rest this] show ?case by (simp add: one)
qed

text \<open>
  C6, amended.  Grouping is idempotent whenever every representative of the prior run is the
  seed (the first member) of its group: running the deduplication again on those
  representatives alone, in any order and under any policy, yields one group per image, each
  the singleton of that image, the same set of representatives, and \<open>total_duplicates = 0\<close>.
  Every representative is a seed after a run under the \<open>first\<close> policy, and after a run under
  \<open>highest_res\<close> in which no member of a group has more pixels than the seed of the group, as
  when all frames have one size.
\<close>

theorem seed_representatives_idempotent:
  assumes "distinct paths"
    and "deduplicate env choice paths method1 self = Inr (reps, stats, self1)"
    and "method1 = ''first'' \<or>
         (method1 = ''highest_res'' \<and>
          (\<forall>grp\<in>set (groups self1). \<forall>m\<in>set grp.
             get_image_resolution env m \<le> get_image_resolution env (hd grp))) \<or>
         reps = hd ` set (groups self1)"
    and "distinct paths2"
    and "set paths2 = reps"
    and "\<forall>p. choice [p] = p"
  shows "\<exists>stats2 self2.
           deduplicate env choice paths2 method self1 = Inr (reps, stats2, self2) \<and>
           groups self2 = map (\<lambda>p. [p]) paths2 \<and>
           unique_groups stats2 = length paths2 \<and>
           total_images stats2 = length paths2 \<and>
           total_duplicates stats2 = 0"
proof -
  let ?s2 = "group_similar_images (process_directory env paths self)"
  have s1: "self1 = ?s2\<lparr>representatives := reps\<rparr>"
    using assms(2) by (rule deduplicate_result)
  then have gsame: "groups self1 = groups ?s2" by simp
  have ne: "[] \<notin> set (groups ?s2)" using assms(1) by (rule groups_of_directory_nonempty)
  have sel: "select_loop env choice method1 (groups ?s2) {} = Inr reps"
    using assms(2) by (rule deduplicate_select_loop)
  from assms(3) have seedc: "reps = hd ` set (groups self1)"
  proof (elim disjE conjE)
    assume "method1 = ''first''"
    with sel select_loop_first [OF ne, of env choice "{}"] show ?thesis
      by (simp add: gsame)
  next
    assume m: "method1 = ''highest_res''"
      and le: "\<forall>grp\<in>set (groups self1). \<forall>m\<in>set grp.
             get_image_resolution env m \<le> get_image_resolution env (hd grp)"
    from le have "\<forall>grp\<in>set (groups ?s2). \<forall>m\<in>set grp.
             get_image_resolution env m \<le> get_image_resolution env (hd grp)"
      by (simp only: gsame)
    from select_loop_highest_res_seeds [OF ne this, of choice "{}"] sel m show ?thesis
      by (simp add: gsame)
  next
    assume "reps = hd ` set (groups self1)"
    then show ?thesis .
  qed
  from assms(1) s1 seedc assms(4,5,6) show ?thesis by (rule rerun_on_seeds)
qed

text \<open>
  Three frames of one size under \<open>highest_res\<close> with threshold 1: the two frames with the
  same pixels form a group that its first frame represents, the third frame is a group of its
  own; a second run on the two representatives leaves them in two singleton groups.
\<close>

theorem seed_representatives_idempotent_witness:
  "\<exists>stats2 self2.
     deduplicate example_imaging hd [frame_d, frame_a] ''highest_res''
        \<lparr>threshold = 1,
          image_hashes = [(frame_a, replicate 64 CHR ''0''),
                          (frame_a2, replicate 64 CHR ''0''),
                          (frame_d, ''11111111'' @ replicate 56 CHR ''0'')],
          groups = [[frame_a, frame_a2], [frame_d]],
          representatives = {frame_a, frame_d}\<rparr>
       = Inr ({frame_a, frame_d}, stats2, self2) \<and>
     groups self2 = [[frame_d], [frame_a]] \<and> total_duplicates stats2 = 0"
proof -
  let ?self1 = "\<lparr>threshold = 1,
          image_hashes = [(frame_a, replicate 64 CHR ''0''),
                          (frame_a2, replicate 64 CHR ''0''),
                          (frame_d, ''11111111'' @ replicate 56 CHR ''0'')],
          groups = [[frame_a, frame_a2], [frame_d]],
          representatives = {frame_a, frame_d}\<rparr>"
  have d: "distinct [frame_a, frame_a2, frame_d]" by simp
  have run1: "deduplicate example_imaging hd [frame_a, frame_a2, frame_d] ''highest_res''
       (init_deduplicator 1) =
     Inr ({frame_a, frame_d},
          \<lparr>total_images = 3, unique_groups = 2, total_duplicates = 1, group_sizes = [2, 1],
             largest_group_size = 2, average_group_size = 3 / 2,
             size_distribution = [(2, 1), (1, 1)]\<rparr>,
          ?self1)"
    by code_simp
  have le: "\<forall>grp\<in>set (groups ?self1). \<forall>m\<in>set grp.
      get_image_resolution example_imaging m \<le> get_image_resolution example_imaging (hd grp)"
    by code_simp
  have c: "''highest_res'' = ''first'' \<or>
         (''highest_res'' = ''highest_res'' \<and>
          (\<forall>grp\<in>set (groups ?self1). \<forall>m\<in>set grp.
             get_image_resolution example_imaging m
               \<le> get_image_resolution example_imaging (hd grp))) \<or>
         {frame_a, frame_d} = hd ` set (groups ?self1)"
    using le by blast
  have d2: "distinct [frame_d, frame_a]" by simp
  have s2: "set [frame_d, frame_a] = {frame_a, frame_d}" by auto
  have ch: "\<forall>p::string. hd [p] = p" by simp
  from seed_representatives_idempotent [OF d run1 c d2 s2 ch, of "''highest_res''"]
  obtain stats2 self2 where
    "deduplicate example_imaging hd [frame_d, frame_a] ''highest_res'' ?self1
       = Inr ({frame_a, frame_d}, stats2, self2)"
    and "groups self2 = map (\<lambda>p. [p]) [frame_d, frame_a]"
    and "total_duplicates stats2 = 0"
    by blast
  then show ?thesis by (intro exI [of _ stats2] exI [of _ self2]) simp
qed

section \<open>Deletions in a deduplication cycle\<close>

lemma rglob_path_examples: "rglob_path ''./temp_photo'' ''frame_0.050.jpg'' = frame_a \<and> rglob_path ''/tmp//x/'' ''f'' = ''/tmp/x/f'' \<and> rglob_path '''' ''f'' = ''f'' \<and> path_join ''./temp_photo'' ''f'' = ''./temp_photo/f''"
  by code_simp










end
